theory Spec2Isabelle
  imports Main "HOL-Library.Code_Target_Nat"
begin

section \<open>Rule 111: OPEN DATASET without MODE / ENCODING\<close>

text \<open>
  The program under verification is \<^verbatim>\<open>src/app/app.py\<close>: a scanner that finds
  \<^verbatim>\<open>OPEN DATASET ... .\<close> statements in a code unit with four regular expressions and
  reports those without a mode clause or, in text mode, without an encoding clause.

  A Python \<^verbatim>\<open>str\<close> is a sequence of Unicode code points, so a text is a list of natural
  numbers. The \<^verbatim>\<open>re\<close> module consults three tables of the Unicode database. Two are small
  and are given in full: the white space of \<^verbatim>\<open>\s\<close>, and the characters that \<^verbatim>\<open>(?i)\<close> takes
  for an ASCII letter. The third, the alphanumeric characters of \<^verbatim>\<open>\w\<close> and \<^verbatim>\<open>\b\<close>, is given
  in full for the code points below U+0100 and for the four letters that \<^verbatim>\<open>(?i)\<close> adds to
  ASCII; for every other code point it is the parameter \<open>W\<close> of the model, and every
  theorem holds for every \<open>W\<close>.
\<close>

subsection \<open>Texts and the character tables of the \<^verbatim>\<open>re\<close> module\<close>

type_synonym ustring = "nat list"

text \<open>A string literal of the program as a text.\<close>

definition str :: "string \<Rightarrow> ustring" where
  "str s = map of_char s"

definition NL :: nat where
  "NL = 0x0A"

definition DOT :: nat where
  "DOT = 0x2E"

text \<open>\<^verbatim>\<open>\s\<close>: the code points for which \<^verbatim>\<open>str.isspace\<close> holds.\<close>

definition is_space :: "nat \<Rightarrow> bool" where
  "is_space c =
     ((0x09 \<le> c \<and> c \<le> 0x0D) \<or> (0x1C \<le> c \<and> c \<le> 0x20) \<or> c = 0x85 \<or> c = 0xA0
      \<or> c = 0x1680 \<or> (0x2000 \<le> c \<and> c \<le> 0x200A) \<or> c = 0x2028 \<or> c = 0x2029
      \<or> c = 0x202F \<or> c = 0x205F \<or> c = 0x3000)"

text \<open>
  \<^verbatim>\<open>str.isalnum\<close>. Below U+0100: the digits, the ASCII letters, the letters, superscript
  digits and fractions of Latin-1. Above: the letters U+0130, U+0131, U+017F and U+212A;
  no white space; for the rest the parameter.
\<close>

definition is_alnum :: "(nat \<Rightarrow> bool) \<Rightarrow> nat \<Rightarrow> bool" where
  "is_alnum W c =
     (if c < 0x100 then
        (0x30 \<le> c \<and> c \<le> 0x39) \<or> (0x41 \<le> c \<and> c \<le> 0x5A) \<or> (0x61 \<le> c \<and> c \<le> 0x7A)
        \<or> c = 0xAA \<or> c = 0xB2 \<or> c = 0xB3 \<or> c = 0xB5 \<or> c = 0xB9 \<or> c = 0xBA
        \<or> (0xBC \<le> c \<and> c \<le> 0xBE) \<or> (0xC0 \<le> c \<and> c \<le> 0xD6) \<or> (0xD8 \<le> c \<and> c \<le> 0xF6)
        \<or> 0xF8 \<le> c
      else c = 0x130 \<or> c = 0x131 \<or> c = 0x17F \<or> c = 0x212A \<or> (\<not> is_space c \<and> W c))"

text \<open>\<^verbatim>\<open>\w\<close>: the alphanumeric characters and the underscore.\<close>

definition is_word :: "(nat \<Rightarrow> bool) \<Rightarrow> nat \<Rightarrow> bool" where
  "is_word W c = (is_alnum W c \<or> c = 0x5F)"

text \<open>
  The code points that a pattern character matches under \<^verbatim>\<open>(?i)\<close>. The patterns of the
  program are ASCII. The engine lower-cases the character of the text and compares it with
  the lower-cased pattern character and with the other lower-case characters that have the
  same upper case. For an ASCII letter these are the letter in both cases and, for
  \<^verbatim>\<open>i\<close>, U+0130 (which lower-cases to \<^verbatim>\<open>i\<close>) and U+0131 (whose upper case is \<^verbatim>\<open>I\<close>); for
  \<^verbatim>\<open>s\<close>, U+017F (whose upper case is \<^verbatim>\<open>S\<close>); for \<^verbatim>\<open>k\<close>, U+212A (which lower-cases to
  \<^verbatim>\<open>k\<close>). Any other ASCII character matches itself only.
\<close>

definition case_variants :: "char \<Rightarrow> nat list" where
  "case_variants p =
     (let n = of_char p;
          lo = (if 0x41 \<le> n \<and> n \<le> 0x5A then n + 0x20 else n)
      in if 0x61 \<le> lo \<and> lo \<le> 0x7A then
           [lo, lo - 0x20] @
           (if lo = 0x69 then [0x130, 0x131]
            else if lo = 0x73 then [0x17F]
            else if lo = 0x6B then [0x212A]
            else [])
         else [n])"

definition lit_match :: "char \<Rightarrow> nat \<Rightarrow> bool" where
  "lit_match p c = (c \<in> set (case_variants p))"

subsection \<open>A backtracking matcher for the constructs the four patterns use\<close>

text \<open>
  A character class is \<^verbatim>\<open>\s\<close>, \<^verbatim>\<open>\S\<close> or a negated one-character set such as \<^verbatim>\<open>[^.]\<close>.
  All four patterns carry the flag \<^verbatim>\<open>(?i)\<close>, so a literal matches up to case.
\<close>

datatype cclass = Space | NonSpace | NotChr nat

fun in_class :: "cclass \<Rightarrow> nat \<Rightarrow> bool" where
  "in_class Space c = is_space c"
| "in_class NonSpace c = (\<not> is_space c)"
| "in_class (NotChr d) c = (c \<noteq> d)"

datatype rx =
    Eps                 \<comment> \<open>the empty pattern\<close>
  | Lit char            \<comment> \<open>a literal character, matched by \<^const>\<open>lit_match\<close>\<close>
  | WordB               \<comment> \<open>\<^verbatim>\<open>\b\<close>\<close>
  | Star cclass         \<comment> \<open>greedy \<^verbatim>\<open>*\<close> of a class\<close>
  | Plus cclass         \<comment> \<open>greedy \<^verbatim>\<open>+\<close> of a class\<close>
  | Seq rx rx
  | Alt rx rx

text \<open>\<^verbatim>\<open>\b\<close> at position \<open>i\<close>: exactly one of the two neighbours is a word character.\<close>

definition at_boundary :: "(nat \<Rightarrow> bool) \<Rightarrow> ustring \<Rightarrow> nat \<Rightarrow> bool" where
  "at_boundary W s i =
     ((0 < i \<and> i \<le> length s \<and> is_word W (s ! (i - 1))) \<noteq> (i < length s \<and> is_word W (s ! i)))"

text \<open>The length of the longest run of class characters starting at position \<open>i\<close>.\<close>

definition run :: "cclass \<Rightarrow> ustring \<Rightarrow> nat \<Rightarrow> nat" where
  "run k s i = length (takeWhile (in_class k) (drop i s))"

text \<open>
  \<open>ends W r s i\<close> lists the positions at which a match of \<open>r\<close> that starts at \<open>i\<close> can end,
  in the order in which a backtracking engine tries them: a greedy repetition offers its
  longest run first, an alternation its left branch first. The engine's match is the head.
\<close>

fun ends :: "(nat \<Rightarrow> bool) \<Rightarrow> rx \<Rightarrow> ustring \<Rightarrow> nat \<Rightarrow> nat list" where
  "ends W Eps s i = [i]"
| "ends W (Lit c) s i = (if i < length s \<and> lit_match c (s ! i) then [Suc i] else [])"
| "ends W WordB s i = (if at_boundary W s i then [i] else [])"
| "ends W (Star k) s i = rev [i ..< Suc (i + run k s i)]"
| "ends W (Plus k) s i = rev [Suc i ..< Suc (i + run k s i)]"
| "ends W (Seq r1 r2) s i = concat (map (ends W r2 s) (ends W r1 s i))"
| "ends W (Alt r1 r2) s i = ends W r1 s i @ ends W r2 s i"

text \<open>
  The first end position the engine accepts. After an empty match \<^verbatim>\<open>finditer\<close> restarts at
  the same position with \<open>must_advance\<close> set, and an empty match there is rejected.
\<close>

fun first_end :: "bool \<Rightarrow> nat \<Rightarrow> nat list \<Rightarrow> nat option" where
  "first_end must_advance i [] = None"
| "first_end must_advance i (e # es) =
     (if must_advance \<and> e = i then first_end must_advance i es else Some e)"

text \<open>\<^verbatim>\<open>pattern.search(s, pos)\<close>: the leftmost start position from \<open>pos\<close> on with a match.\<close>

function search_from ::
  "(nat \<Rightarrow> bool) \<Rightarrow> rx \<Rightarrow> ustring \<Rightarrow> nat \<Rightarrow> bool \<Rightarrow> (nat \<times> nat) option" where
  "search_from W r s pos must_advance =
     (if length s < pos then None
      else case first_end must_advance pos (ends W r s pos) of
             Some e \<Rightarrow> Some (pos, e)
           | None \<Rightarrow> search_from W r s (Suc pos) False)"
  by pat_completeness auto
termination
  by (relation "measure (\<lambda>(W, r, s, pos, a). Suc (length s) - pos)") auto

declare search_from.simps [simp del]

definition search :: "(nat \<Rightarrow> bool) \<Rightarrow> rx \<Rightarrow> ustring \<Rightarrow> (nat \<times> nat) option" where
  "search W r s = search_from W r s 0 False"

lemma ends_range:
  "e \<in> set (ends W r s i) \<Longrightarrow> i \<le> e \<and> (i \<le> length s \<longrightarrow> e \<le> length s)"
proof (induction r arbitrary: i e)
  case (Star k)
  have "run k s i \<le> length s - i"
    unfolding run_def by (metis length_drop length_takeWhile_le)
  with Star show ?case by auto
next
  case (Plus k)
  have "run k s i \<le> length s - i"
    unfolding run_def by (metis length_drop length_takeWhile_le)
  with Plus show ?case by auto
next
  case (Seq r1 r2)
  then show ?case by fastforce
qed (auto split: if_splits)

lemma first_end_mem: "first_end a i es = Some e \<Longrightarrow> e \<in> set es \<and> (a \<longrightarrow> e \<noteq> i)"
  by (induction es) (auto split: if_splits)

lemma search_from_range:
  "search_from W r s pos a = Some (b, e) \<Longrightarrow>
     pos \<le> b \<and> b \<le> e \<and> e \<le> length s \<and> e \<in> set (ends W r s b) \<and> (a \<and> b = pos \<longrightarrow> e \<noteq> b)"
proof (induction W r s pos a rule: search_from.induct)
  case (1 W r s pos a)
  show ?case
  proof (cases "first_end a pos (ends W r s pos)")
    case None
    with "1.prems" have le: "\<not> length s < pos"
      and rec: "search_from W r s (Suc pos) False = Some (b, e)"
      by (auto simp: search_from.simps [of W r s pos a] split: if_splits)
    from "1.IH" [OF le None rec] show ?thesis by auto
  next
    case (Some e')
    with "1.prems" have le: "\<not> length s < pos" and eq: "b = pos" "e = e'"
      by (auto simp: search_from.simps [of W r s pos a] split: if_splits)
    from first_end_mem [OF Some] ends_range [of e' W r s pos] le eq
    show ?thesis by auto
  qed
qed

text \<open>
  \<^verbatim>\<open>pattern.finditer(s)\<close>: the spans \<open>(start, end)\<close> of the successive non-overlapping
  matches, each search resuming where the previous match ended.
\<close>

function finditer_from ::
  "(nat \<Rightarrow> bool) \<Rightarrow> rx \<Rightarrow> ustring \<Rightarrow> nat \<Rightarrow> bool \<Rightarrow> (nat \<times> nat) list" where
  "finditer_from W r s pos must_advance =
     (case search_from W r s pos must_advance of
        None \<Rightarrow> []
      | Some (b, e) \<Rightarrow> (b, e) # finditer_from W r s e (e = b))"
  by pat_completeness auto
termination
proof (relation "measures [\<lambda>(W, r, s, pos, a). Suc (length s) - pos,
    \<lambda>(W, r, s, pos, a). if a then 0 else 1]", goal_cases)
  case 1
  show ?case by simp
next
  case (2 W r s pos a x b e)
  then have "search_from W r s pos a = Some (b, e)" by simp
  from search_from_range [OF this] show ?case by auto
qed

declare finditer_from.simps [simp del]

definition finditer :: "(nat \<Rightarrow> bool) \<Rightarrow> rx \<Rightarrow> ustring \<Rightarrow> (nat \<times> nat) list" where
  "finditer W r s = finditer_from W r s 0 False"

text \<open>\<^verbatim>\<open>m.group(0)\<close>: the matched text.\<close>

definition group0 :: "ustring \<Rightarrow> nat \<times> nat \<Rightarrow> ustring" where
  "group0 s m = take (snd m - fst m) (drop (fst m) s)"

subsection \<open>The four patterns\<close>

definition word :: "string \<Rightarrow> rx" where
  "word w = foldr (\<lambda>c r. Seq (Lit c) r) w Eps"

definition seqs :: "rx list \<Rightarrow> rx" where
  "seqs rs = foldr Seq rs Eps"

text \<open>\<^verbatim>\<open>STMT_RE = re.compile(r"(?is)\bOPEN\s+DATASET\b[^.]*\.", re.DOTALL)\<close>\<close>

definition STMT_RE :: rx where
  "STMT_RE = seqs [WordB, word ''OPEN'', Plus Space, word ''DATASET'', WordB,
                   Star (NotChr DOT), Lit (CHR ''.'')]"

text \<open>\<^verbatim>\<open>MODE_RE = re.compile(r"(?i)\bIN\s+(TEXT|BINARY)\s+MODE\b")\<close>\<close>

definition MODE_RE :: rx where
  "MODE_RE = seqs [WordB, word ''IN'', Plus Space, Alt (word ''TEXT'') (word ''BINARY''),
                   Plus Space, word ''MODE'', WordB]"

text \<open>\<^verbatim>\<open>TEXT_MODE_RE = re.compile(r"(?i)\bIN\s+TEXT\s+MODE\b")\<close>\<close>

definition TEXT_MODE_RE :: rx where
  "TEXT_MODE_RE = seqs [WordB, word ''IN'', Plus Space, word ''TEXT'', Plus Space,
                        word ''MODE'', WordB]"

text \<open>\<^verbatim>\<open>ENCODING_RE = re.compile(r"(?i)\bENCODING\b\s+\S+")\<close>\<close>

definition ENCODING_RE :: rx where
  "ENCODING_RE = seqs [WordB, word ''ENCODING'', WordB, Plus Space, Plus NonSpace]"

subsection \<open>The models\<close>

record Finding =
  prog_name :: "ustring option"
  incl_name :: "ustring option"
  types :: "ustring option"
  blockname :: "ustring option"
  starting_line :: "int option"
  ending_line :: "int option"
  issues_type :: "ustring option"
  severity :: "ustring option"
  message :: "ustring option"
  suggestion :: "ustring option"
  snippet :: "ustring option"

record Unit =
  pgm_name :: ustring
  inc_name :: ustring
  type :: ustring
  name :: "ustring option"
  start_line :: "int option"
  end_line :: "int option"
  code :: "ustring option"
  findings :: "Finding list option"

subsection \<open>String helpers\<close>

text \<open>\<^verbatim>\<open>text.find(c, start)\<close> and \<^verbatim>\<open>text.rfind(c, 0, stop)\<close> for a one-character needle:
  the lowest index from \<open>start\<close> on, the highest index below \<open>stop\<close>, or \<open>-1\<close>.\<close>

fun index_of :: "nat \<Rightarrow> ustring \<Rightarrow> nat option" where
  "index_of c [] = None"
| "index_of c (x # xs) =
     (if x = c then Some 0 else case index_of c xs of None \<Rightarrow> None | Some k \<Rightarrow> Some (Suc k))"

definition find_chr :: "ustring \<Rightarrow> nat \<Rightarrow> nat \<Rightarrow> int" where
  "find_chr text c start =
     (case index_of c (drop start text) of None \<Rightarrow> - 1 | Some k \<Rightarrow> int (start + k))"

definition rfind_chr :: "ustring \<Rightarrow> nat \<Rightarrow> nat \<Rightarrow> int" where
  "rfind_chr text c stop =
     (case index_of c (rev (take stop text)) of
        None \<Rightarrow> - 1
      | Some k \<Rightarrow> int (length (take stop text) - Suc k))"

text \<open>\<^verbatim>\<open>text[a:b]\<close> for non-negative bounds.\<close>

definition slice :: "ustring \<Rightarrow> nat \<Rightarrow> nat \<Rightarrow> ustring" where
  "slice text a b = take (b - a) (drop a text)"

text \<open>\<^verbatim>\<open>s.count("\n")\<close>\<close>

definition count_nl :: "ustring \<Rightarrow> int" where
  "count_nl s = int (length (filter (\<lambda>c. c = NL) s))"

text \<open>\<^verbatim>\<open>s.replace("\n", "\\n")\<close>: every newline becomes a backslash and the letter n.\<close>

definition replace_nl :: "ustring \<Rightarrow> ustring" where
  "replace_nl s = concat (map (\<lambda>c. if c = NL then [0x5C, 0x6E] else [c]) s)"

definition get_line_snippet :: "ustring \<Rightarrow> nat \<Rightarrow> nat \<Rightarrow> ustring" where
  "get_line_snippet text start end' =
     (let line_start = rfind_chr text NL start;
          line_start = (if line_start = - 1 then 0 else line_start + 1);
          line_end = find_chr text NL end';
          line_end = (if line_end = - 1 then int (length text) else line_end)
      in slice text (nat line_start) (nat line_end))"

subsection \<open>Rule detection\<close>

definition msg_no_mode :: ustring where
  "msg_no_mode = str ''OPEN DATASET without MODE. Specify IN TEXT MODE or IN BINARY MODE and, for text, an explicit ENCODING.''"

definition sug_no_mode :: ustring where
  "sug_no_mode = str ''OPEN DATASET lv_file FOR OUTPUT IN TEXT MODE ENCODING UTF-8.'' @ [NL]
     @ str ''* or *'' @ [NL] @ str ''OPEN DATASET lv_file FOR INPUT IN BINARY MODE.''"

definition msg_no_encoding :: ustring where
  "msg_no_encoding = str ''OPEN DATASET in TEXT MODE without explicit ENCODING.''"

definition sug_no_encoding :: ustring where
  "sug_no_encoding = str ''Add ENCODING UTF-8 (or the required code page).''"

definition mk_finding ::
  "Unit \<Rightarrow> int \<Rightarrow> int \<Rightarrow> ustring \<Rightarrow> ustring \<Rightarrow> ustring \<Rightarrow> ustring \<Rightarrow> Finding" where
  "mk_finding unit starting_line_abs ending_line_abs kind msg sug snippet_line =
     \<lparr> prog_name = Some (pgm_name unit),
       incl_name = Some (inc_name unit),
       types = Some (type unit),
       blockname = name unit,
       starting_line = Some starting_line_abs,
       ending_line = Some ending_line_abs,
       issues_type = Some kind,
       severity = Some (str ''error''),
       message = Some msg,
       suggestion = Some sug,
       snippet = Some (replace_nl snippet_line) \<rparr>"

text \<open>One pass of the body of the \<^verbatim>\<open>for m in STMT_RE.finditer(src)\<close> loop: \<open>m\<close> is the span
  of the match, \<open>acc\<close> the list \<^verbatim>\<open>findings\<close> so far.\<close>

definition scan_stmt ::
  "(nat \<Rightarrow> bool) \<Rightarrow> Unit \<Rightarrow> ustring \<Rightarrow> int \<Rightarrow> nat \<times> nat \<Rightarrow> Finding list \<Rightarrow> Finding list" where
  "scan_stmt W unit src base_start m acc =
     (let stmt_start = fst m;
          stmt_end = snd m;
          stmt = group0 src m;
          has_mode = (search W MODE_RE stmt \<noteq> None);
          is_text_mode = (search W TEXT_MODE_RE stmt \<noteq> None);
          has_encoding = (search W ENCODING_RE stmt \<noteq> None);
          line_in_block = count_nl (take stmt_start src) + 1;
          snippet_line = get_line_snippet src stmt_start stmt_end;
          snippet_line_count = count_nl snippet_line + 1;
          starting_line_abs = base_start + line_in_block;
          ending_line_abs = base_start + line_in_block + snippet_line_count
      in if \<not> has_mode then
           acc @ [mk_finding unit starting_line_abs ending_line_abs
                    (str ''OpenDatasetNoMode'') msg_no_mode sug_no_mode snippet_line]
         else if is_text_mode \<and> \<not> has_encoding then
           acc @ [mk_finding unit starting_line_abs ending_line_abs
                    (str ''OpenDatasetTextNoEncoding'') msg_no_encoding sug_no_encoding snippet_line]
         else acc)"

text \<open>\<^verbatim>\<open>unit.code or ""\<close> and \<^verbatim>\<open>unit.start_line or 0\<close>\<close>

definition src_of :: "Unit \<Rightarrow> ustring" where
  "src_of unit = (case code unit of None \<Rightarrow> [] | Some c \<Rightarrow> c)"

definition base_of :: "Unit \<Rightarrow> int" where
  "base_of unit = (case start_line unit of None \<Rightarrow> 0 | Some n \<Rightarrow> n)"

definition scan_findings :: "(nat \<Rightarrow> bool) \<Rightarrow> Unit \<Rightarrow> Finding list" where
  "scan_findings W unit =
     (let src = src_of unit;
          base_start = base_of unit
      in fold (scan_stmt W unit src base_start) (finditer W STMT_RE src) [])"

definition scan_unit :: "(nat \<Rightarrow> bool) \<Rightarrow> Unit \<Rightarrow> Unit" where
  "scan_unit W unit = unit\<lparr>findings := Some (scan_findings W unit)\<rparr>"

text \<open>The findings that the loop body appends for one match.\<close>

definition stmt_findings :: "(nat \<Rightarrow> bool) \<Rightarrow> Unit \<Rightarrow> nat \<times> nat \<Rightarrow> Finding list" where
  "stmt_findings W unit m = scan_stmt W unit (src_of unit) (base_of unit) m []"

subsection \<open>Objects: the unit passed in and the unit returned\<close>

text \<open>
  \<^verbatim>\<open>scan_unit\<close> receives a reference to a \<^verbatim>\<open>Unit\<close> object. Its last three lines build a new
  object from the dump of the old one, assign the list of findings to the new object's field
  and return the new reference. A heap is the list of the objects allocated so far; a
  reference is an index into it.
\<close>

type_synonym heap = "Unit list"

text \<open>\<^verbatim>\<open>Unit(**unit.model_dump())\<close>: a new object with the same field values.\<close>

definition model_copy :: "heap \<Rightarrow> nat \<Rightarrow> nat \<times> heap" where
  "model_copy h r = (length h, h @ [h ! r])"

text \<open>\<^verbatim>\<open>out_unit.findings = findings\<close>\<close>

definition set_findings :: "heap \<Rightarrow> nat \<Rightarrow> Finding list \<Rightarrow> heap" where
  "set_findings h r fs = h[r := (h ! r)\<lparr>findings := Some fs\<rparr>]"

definition scan_unit_heap :: "(nat \<Rightarrow> bool) \<Rightarrow> heap \<Rightarrow> nat \<Rightarrow> nat \<times> heap" where
  "scan_unit_heap W h unit =
     (let fs = scan_findings W (h ! unit);
          (out_unit, h1) = model_copy h unit;
          h2 = set_findings h1 out_unit fs
      in (out_unit, h2))"

subsection \<open>Endpoints\<close>

text \<open>The truth value of \<^verbatim>\<open>res.findings\<close>: false for \<^verbatim>\<open>None\<close> and for the empty list.\<close>

definition truthy :: "Finding list option \<Rightarrow> bool" where
  "truthy fs = (case fs of None \<Rightarrow> False | Some l \<Rightarrow> l \<noteq> [])"

definition scan_rule111_array :: "(nat \<Rightarrow> bool) \<Rightarrow> Unit list \<Rightarrow> Unit list" where
  "scan_rule111_array W units =
     fold (\<lambda>u results. let res = scan_unit W u in
             if truthy (findings res) then results @ [res] else results) units []"

definition scan_rule111_single :: "(nat \<Rightarrow> bool) \<Rightarrow> Unit \<Rightarrow> Unit" where
  "scan_rule111_single W unit = scan_unit W unit"

subsection \<open>Example units\<close>

text \<open>An instance of the parameter for the examples: no further alphanumeric character.\<close>

definition W0 :: "nat \<Rightarrow> bool" where
  "W0 c = False"

definition ex_unit :: "ustring \<Rightarrow> Unit" where
  "ex_unit c = \<lparr> pgm_name = str ''ZPROG'', inc_name = str ''ZINC'', type = str ''FORM'',
     name = Some (str ''MAIN''), start_line = Some 10, end_line = Some 12, code = Some c,
     findings = None \<rparr>"

definition ex_code :: ustring where
  "ex_code = str ''A.'' @ [NL] @ str ''OPEN DATASET F.'' @ [NL]"

definition ex_text :: ustring where
  "ex_text = str ''open dataset F  in text mode.''"

definition ex_binary :: ustring where
  "ex_binary = str ''OPEN DATASET F IN BINARY MODE.''"

definition ex_utf8 :: ustring where
  "ex_utf8 = str ''OPEN DATASET F IN TEXT MODE ENCODING UTF-8.''"

definition ex_open :: ustring where
  "ex_open = str ''OPEN DATASET F''"

definition ex_two :: ustring where
  "ex_two = str ''OPEN DATASET A.'' @ [NL] @ str ''OPEN DATASET B IN TEXT MODE.''"

definition ex_multi :: Unit where
  "ex_multi = (ex_unit (str ''X.'' @ [NL] @ str ''OPEN DATASET'' @ [NL] @ str ''F.''))
     \<lparr>start_line := None\<rparr>"

text \<open>A unit whose first statement is in order and whose second, on line 3, is not.\<close>

definition ex_second :: ustring where
  "ex_second = str ''OPEN DATASET A IN BINARY MODE.'' @ [NL] @ str ''X.'' @ [NL]
     @ str ''OPEN DATASET B.''"

text \<open>Texts with U+017F for S, U+2003 for a blank and U+0131 for I.\<close>

definition ex_long_s :: ustring where
  "ex_long_s = str ''OPEN'' @ [0x2003] @ str ''DATA'' @ [0x17F] @ str ''ET F.''"

definition ex_dotless :: ustring where
  "ex_dotless = str ''OPEN DATASET F '' @ [0x131] @ str ''N TEXT MODE.''"

subsection \<open>The statement locator and the sub-checks, in the words of the specification\<close>

text \<open>
  The definitions of this subsection do not come from the code. They say what the
  specification means by a case-insensitive whole-word occurrence of a keyword phrase, and
  are compared with the matcher below.
\<close>

definition all_in :: "cclass \<Rightarrow> ustring \<Rightarrow> nat \<Rightarrow> nat \<Rightarrow> bool" where
  "all_in k s i j = (\<forall>m\<in>{i..<j}. in_class k (s ! m))"

text \<open>
  The word \<open>w\<close> stands at position \<open>i\<close> of \<open>s\<close>, up to case: each character of the text is
  the character of the word in either case, or one of the letters that Unicode gives the
  same upper or lower case (\<^const>\<open>case_variants\<close>).
\<close>

definition ci_word_at :: "string \<Rightarrow> ustring \<Rightarrow> nat \<Rightarrow> bool" where
  "ci_word_at w s i = list_all2 lit_match w (take (length w) (drop i s))"

definition letters :: "string \<Rightarrow> bool" where
  "letters w = (\<forall>c\<in>set w. 0x41 \<le> (of_char c :: nat) \<and> (of_char c :: nat) \<le> 0x5A)"

definition whole_word :: "(nat \<Rightarrow> bool) \<Rightarrow> ustring \<Rightarrow> nat \<Rightarrow> nat \<Rightarrow> bool" where
  "whole_word W s i j =
     ((i = 0 \<or> \<not> is_word W (s ! (i - 1))) \<and> (length s \<le> j \<or> \<not> is_word W (s ! j)))"

definition spaces :: "ustring \<Rightarrow> nat \<Rightarrow> nat \<Rightarrow> bool" where
  "spaces s i j = (i < j \<and> j \<le> length s \<and> (\<forall>m\<in>{i..<j}. is_space (s ! m)))"

fun phrase_at :: "string list \<Rightarrow> ustring \<Rightarrow> nat \<Rightarrow> nat \<Rightarrow> bool" where
  "phrase_at [] s i j = (j = i)"
| "phrase_at [w] s i j = (ci_word_at w s i \<and> j = i + length w)"
| "phrase_at (w # ws) s i j =
     (ci_word_at w s i \<and> (\<exists>k\<in>{..length s}. spaces s (i + length w) k \<and> phrase_at ws s k j))"

definition keyword_at ::
  "(nat \<Rightarrow> bool) \<Rightarrow> string list \<Rightarrow> ustring \<Rightarrow> nat \<Rightarrow> nat \<Rightarrow> bool" where
  "keyword_at W ws s i j = (whole_word W s i j \<and> phrase_at ws s i j)"

definition contains_keyword :: "(nat \<Rightarrow> bool) \<Rightarrow> string list \<Rightarrow> ustring \<Rightarrow> bool" where
  "contains_keyword W ws s = (\<exists>i\<in>{..length s}. \<exists>j\<in>{..length s}. keyword_at W ws s i j)"

definition opening_at :: "(nat \<Rightarrow> bool) \<Rightarrow> ustring \<Rightarrow> nat \<Rightarrow> nat \<Rightarrow> bool" where
  "opening_at W s i j = keyword_at W [''OPEN'', ''DATASET''] s i j"

definition mode_present :: "(nat \<Rightarrow> bool) \<Rightarrow> ustring \<Rightarrow> bool" where
  "mode_present W stmt =
     (contains_keyword W [''IN'', ''TEXT'', ''MODE''] stmt \<or>
      contains_keyword W [''IN'', ''BINARY'', ''MODE''] stmt)"

definition text_mode :: "(nat \<Rightarrow> bool) \<Rightarrow> ustring \<Rightarrow> bool" where
  "text_mode W stmt = contains_keyword W [''IN'', ''TEXT'', ''MODE''] stmt"

definition encoding_present :: "(nat \<Rightarrow> bool) \<Rightarrow> ustring \<Rightarrow> bool" where
  "encoding_present W stmt =
     (\<exists>i\<in>{..length stmt}. \<exists>j\<in>{..length stmt}. \<exists>k\<in>{..<length stmt}.
        keyword_at W [''ENCODING''] stmt i j \<and> spaces stmt j k \<and> \<not> is_space (stmt ! k))"

text \<open>
  \<open>ls\<close> is where the line of position \<open>a\<close> starts: right after the last newline before
  \<open>a\<close>, or at the start of the text. \<open>le\<close> is where the line of position \<open>b\<close> ends:
  at the first newline from \<open>b\<close> on, or at the end of the text.
\<close>

definition is_line_start :: "ustring \<Rightarrow> nat \<Rightarrow> nat \<Rightarrow> bool" where
  "is_line_start s a ls =
     (ls \<le> a \<and> (ls = 0 \<or> s ! (ls - 1) = NL) \<and> (\<forall>k\<in>{ls..<a}. s ! k \<noteq> NL))"

definition is_line_end :: "ustring \<Rightarrow> nat \<Rightarrow> nat \<Rightarrow> bool" where
  "is_line_end s b le =
     (b \<le> le \<and> le \<le> length s \<and> (le = length s \<or> s ! le = NL) \<and> (\<forall>k\<in>{b..<le}. s ! k \<noteq> NL))"

text \<open>The opening keyword phrase of \<^const>\<open>STMT_RE\<close> as a pattern of its own.\<close>

definition OPENING_RE :: rx where
  "OPENING_RE = seqs [WordB, word ''OPEN'', Plus Space, word ''DATASET'', WordB]"

section \<open>Properties of the embedding\<close>

subsection \<open>Repetitions, literals and words\<close>

text \<open>
  What the end positions of the atomic patterns are, as statements about the text.
\<close>

lemma run_le_iff:
  "j \<le> run k s i \<longleftrightarrow> (j = 0 \<or> i + j \<le> length s) \<and> (\<forall>m<j. in_class k (s ! (i + m)))"
proof
  assume a: "j \<le> run k s i"
  let ?xs = "drop i s"
  have len: "run k s i \<le> length ?xs"
    unfolding run_def by (rule length_takeWhile_le)
  have "in_class k (s ! (i + m))" if "m < j" for m
  proof -
    from that a have m: "m < length (takeWhile (in_class k) ?xs)" by (simp add: run_def)
    then have "takeWhile (in_class k) ?xs ! m \<in> set (takeWhile (in_class k) ?xs)"
      by (rule nth_mem)
    then have "in_class k (takeWhile (in_class k) ?xs ! m)" by (rule set_takeWhileD [THEN conjunct2])
    moreover have "takeWhile (in_class k) ?xs ! m = ?xs ! m" using m by (rule takeWhile_nth)
    moreover have "?xs ! m = s ! (i + m)" using m len by (simp add: run_def)
    ultimately show ?thesis by simp
  qed
  with a len show "(j = 0 \<or> i + j \<le> length s) \<and> (\<forall>m<j. in_class k (s ! (i + m)))" by auto
next
  assume b: "(j = 0 \<or> i + j \<le> length s) \<and> (\<forall>m<j. in_class k (s ! (i + m)))"
  show "j \<le> run k s i"
  proof (cases "j = 0")
    case False
    with b have le: "i + j \<le> length s" by simp
    have "j \<le> length (takeWhile (in_class k) (drop i s))"
    proof (rule length_takeWhile_less_P_nth)
      fix m assume "m < j"
      with b le show "in_class k (drop i s ! m)" by simp
    next
      from le show "j \<le> length (drop i s)" by simp
    qed
    then show ?thesis by (simp add: run_def)
  qed simp
qed

lemma mem_ends_Plus:
  "e \<in> set (ends W (Plus k) s i) \<longleftrightarrow> i < e \<and> e \<le> length s \<and> all_in k s i e"
proof -
  have "e \<in> set (ends W (Plus k) s i) \<longleftrightarrow> i < e \<and> e - i \<le> run k s i" by auto
  also have "\<dots> \<longleftrightarrow> i < e \<and> e \<le> length s \<and> (\<forall>m<e - i. in_class k (s ! (i + m)))"
    by (auto simp: run_le_iff)
  also have "(\<forall>m<e - i. in_class k (s ! (i + m))) \<longleftrightarrow> all_in k s i e"
    unfolding all_in_def
  proof
    assume h: "\<forall>m<e - i. in_class k (s ! (i + m))"
    show "\<forall>m\<in>{i..<e}. in_class k (s ! m)"
    proof
      fix m assume "m \<in> {i..<e}"
      then have "m - i < e - i" "i + (m - i) = m" by auto
      with h show "in_class k (s ! m)" by metis
    qed
  next
    assume "\<forall>m\<in>{i..<e}. in_class k (s ! m)"
    then show "\<forall>m<e - i. in_class k (s ! (i + m))" by auto
  qed
  finally show ?thesis .
qed

lemma mem_ends_Star:
  "e \<in> set (ends W (Star k) s i) \<longleftrightarrow> i \<le> e \<and> (e = i \<or> e \<le> length s) \<and> all_in k s i e"
proof -
  have "e \<in> set (ends W (Star k) s i) \<longleftrightarrow> e = i \<or> e \<in> set (ends W (Plus k) s i)" by auto
  then show ?thesis unfolding mem_ends_Plus by (auto simp: all_in_def)
qed

lemma lit_match_DOT: "lit_match (CHR ''.'') c \<longleftrightarrow> c = DOT"
  by (simp add: lit_match_def case_variants_def DOT_def)

text \<open>What matches an upper-case ASCII letter is a word character, no white space and no period.\<close>

lemma case_variants_mem:
  "c \<in> set (case_variants p) \<Longrightarrow> (0x41::nat) \<le> of_char p \<Longrightarrow> (of_char p :: nat) \<le> 0x5A \<Longrightarrow>
     c = of_char p + 0x20 \<or> c = of_char p \<or> c = 0x130 \<or> c = 0x131 \<or> c = 0x17F \<or> c = 0x212A"
  unfolding case_variants_def Let_def by (simp split: if_splits; blast)

lemma letter_is_word:
  "(0x41::nat) \<le> n \<Longrightarrow> n \<le> 0x5A \<Longrightarrow> is_word W (n + 0x20) \<and> is_word W n"
  unfolding is_word_def is_alnum_def by simp

lemma added_letters_are_words:
  "is_word W 0x130 \<and> is_word W 0x131 \<and> is_word W 0x17F \<and> is_word W 0x212A"
  unfolding is_word_def is_alnum_def by simp

lemma letter_no_space:
  "(0x41::nat) \<le> n \<Longrightarrow> n \<le> 0x5A \<Longrightarrow>
     \<not> is_space (n + 0x20) \<and> \<not> is_space n \<and> n + 0x20 \<noteq> DOT \<and> n \<noteq> DOT"
  unfolding is_space_def DOT_def by simp

lemma added_letters_no_space:
  "\<not> is_space 0x130 \<and> \<not> is_space 0x131 \<and> \<not> is_space 0x17F \<and> \<not> is_space 0x212A \<and>
   0x130 \<noteq> DOT \<and> 0x131 \<noteq> DOT \<and> 0x17F \<noteq> DOT \<and> 0x212A \<noteq> DOT"
  unfolding is_space_def DOT_def by simp

lemma lit_match_letter:
  assumes "lit_match p c" and "0x41 \<le> (of_char p :: nat)" and "(of_char p :: nat) \<le> 0x5A"
  shows "is_word W c \<and> \<not> is_space c \<and> c \<noteq> DOT"
proof -
  from assms(1) have "c \<in> set (case_variants p)" by (simp add: lit_match_def)
  from case_variants_mem [OF this assms(2,3)]
  consider "c = of_char p + 0x20" | "c = of_char p" | "c = 0x130" | "c = 0x131" | "c = 0x17F"
    | "c = 0x212A" by blast
  then show ?thesis
    using letter_is_word [OF assms(2,3), of W] letter_no_space [OF assms(2,3)]
      added_letters_are_words [of W] added_letters_no_space
    by cases simp_all
qed

lemma not_space_DOT: "\<not> is_space DOT"
  by (simp add: is_space_def DOT_def)

lemma ci_word_at_Nil: "ci_word_at [] s i"
  by (simp add: ci_word_at_def)

lemma ci_word_at_Cons:
  "ci_word_at (c # cs) s i \<longleftrightarrow> i < length s \<and> lit_match c (s ! i) \<and> ci_word_at cs s (Suc i)"
proof (cases "i < length s")
  case True
  then have "drop i s = s ! i # drop (Suc i) s" by (simp add: Cons_nth_drop_Suc)
  then show ?thesis using True by (simp add: ci_word_at_def)
next
  case False
  then show ?thesis by (simp add: ci_word_at_def)
qed

lemma mem_ends_word:
  "e \<in> set (ends W (word w) s i) \<longleftrightarrow> ci_word_at w s i \<and> e = i + length w"
proof (induction w arbitrary: i)
  case Nil
  show ?case by (simp add: word_def ci_word_at_Nil)
next
  case (Cons c cs)
  have "word (c # cs) = Seq (Lit c) (word cs)" by (simp add: word_def)
  then show ?case using Cons [of "Suc i"] by (auto simp: ci_word_at_Cons)
qed

lemma ci_word_at_bound: "ci_word_at w s i \<Longrightarrow> w \<noteq> [] \<Longrightarrow> i + length w \<le> length s"
proof -
  assume a: "ci_word_at w s i" and "w \<noteq> []"
  from a have "length w = length (take (length w) (drop i s))"
    unfolding ci_word_at_def by (rule list_all2_lengthD)
  then have "min (length w) (length s - i) = length w" by simp
  moreover from \<open>w \<noteq> []\<close> have "0 < length w" by simp
  ultimately show ?thesis by arith
qed

lemma ci_word_at_nth: "ci_word_at w s i \<Longrightarrow> k < length w \<Longrightarrow> lit_match (w ! k) (s ! (i + k))"
proof (induction w arbitrary: i k)
  case Nil then show ?case by simp
next
  case (Cons c cs)
  show ?case
  proof (cases k)
    case 0
    with Cons.prems show ?thesis by (simp add: ci_word_at_Cons)
  next
    case (Suc n)
    with Cons.prems have "ci_word_at cs s (Suc i)" "n < length cs"
      by (simp_all add: ci_word_at_Cons)
    from Cons.IH [OF this] Suc show ?thesis by simp
  qed
qed

subsection \<open>Searching and iterating\<close>

text \<open>
  A search fails exactly when no start position has a match; the spans of \<^verbatim>\<open>finditer\<close> are
  matches, lie in the text and follow one another from left to right.
\<close>

lemma first_end_None_iff: "first_end False i es = None \<longleftrightarrow> es = []"
  by (cases es) simp_all

lemma search_from_no_match:
  "(\<And>b. pos \<le> b \<Longrightarrow> b \<le> length s \<Longrightarrow> ends W r s b = []) \<Longrightarrow> search_from W r s pos a = None"
proof (induction W r s pos a rule: search_from.induct)
  case (1 W r s pos a)
  show ?case
  proof (cases "length s < pos")
    case True
    then show ?thesis by (simp add: search_from.simps [of W r s pos a])
  next
    case False
    then have e: "ends W r s pos = []" using "1.prems" [of pos] by simp
    then have f: "first_end a pos (ends W r s pos) = None" by simp
    have "search_from W r s (Suc pos) False = None"
      using "1.IH" [OF False f] "1.prems" by simp
    with False f show ?thesis by (simp add: search_from.simps [of W r s pos a])
  qed
qed

lemma search_from_None_D:
  "search_from W r s pos False = None \<Longrightarrow> pos \<le> b \<Longrightarrow> b \<le> length s \<Longrightarrow> ends W r s b = []"
proof (induction W r s pos "False" arbitrary: b rule: search_from.induct)
  case (1 W r s pos)
  from "1.prems" have le: "\<not> length s < pos" by simp
  from "1.prems"(1) le have f: "first_end False pos (ends W r s pos) = None"
    and rec: "search_from W r s (Suc pos) False = None"
    by (auto simp: search_from.simps [of W r s pos False] split: option.splits)
  show ?case
  proof (cases "b = pos")
    case True
    with f show ?thesis by (simp add: first_end_None_iff)
  next
    case False
    with "1.prems" have "Suc pos \<le> b" by simp
    from "1.hyps" [OF le f rec this "1.prems"(3)] show ?thesis .
  qed
qed

lemma search_None_iff: "search W r s = None \<longleftrightarrow> (\<forall>b\<le>length s. ends W r s b = [])"
  unfolding search_def using search_from_no_match [of 0 s W r False] search_from_None_D [of W r s 0]
  by blast

lemma search_Some_iff: "search W r s \<noteq> None \<longleftrightarrow> (\<exists>b\<le>length s. \<exists>e. e \<in> set (ends W r s b))"
  unfolding search_None_iff by (metis all_not_in_conv set_empty)

lemma finditer_from_mem:
  "(b, e) \<in> set (finditer_from W r s pos a) \<Longrightarrow>
     pos \<le> b \<and> b \<le> e \<and> e \<le> length s \<and> e \<in> set (ends W r s b)"
proof (induction W r s pos a rule: finditer_from.induct)
  case (1 W r s pos a)
  show ?case
  proof (cases "search_from W r s pos a")
    case None
    with "1.prems" show ?thesis by (simp add: finditer_from.simps [of W r s pos a])
  next
    case (Some m)
    obtain b' e' where m: "m = (b', e')" by (cases m)
    from Some m have sf: "search_from W r s pos a = Some (b', e')" by simp
    note rng = search_from_range [OF sf]
    from "1.prems" sf have "(b, e) = (b', e') \<or> (b, e) \<in> set (finditer_from W r s e' (e' = b'))"
      by (simp add: finditer_from.simps [of W r s pos a])
    then show ?thesis
    proof
      assume "(b, e) = (b', e')"
      with rng show ?thesis by simp
    next
      assume "(b, e) \<in> set (finditer_from W r s e' (e' = b'))"
      from "1.IH" [OF Some m [symmetric] this] rng show ?thesis by simp
    qed
  qed
qed

lemma finditer_from_sorted:
  "sorted_wrt (\<lambda>m m'. snd m \<le> fst m') (finditer_from W r s pos a)"
proof (induction W r s pos a rule: finditer_from.induct)
  case (1 W r s pos a)
  show ?case
  proof (cases "search_from W r s pos a")
    case None
    then show ?thesis by (simp add: finditer_from.simps [of W r s pos a])
  next
    case (Some m)
    obtain b' e' where m: "m = (b', e')" by (cases m)
    from Some m have sf: "search_from W r s pos a = Some (b', e')" by simp
    have "\<forall>x\<in>set (finditer_from W r s e' (e' = b')). e' \<le> fst x"
      using finditer_from_mem [of _ _ W r s e' "e' = b'"] by auto
    with "1.IH" [OF Some m [symmetric]] sf show ?thesis
      by (simp add: finditer_from.simps [of W r s pos a])
  qed
qed

lemma finditer_no_match: "(\<And>b. b \<le> length s \<Longrightarrow> ends W r s b = []) \<Longrightarrow> finditer W r s = []"
  unfolding finditer_def using search_from_no_match [of 0 s W r False]
  by (simp add: finditer_from.simps [of W r s 0 False])

subsection \<open>Keyword phrases\<close>

text \<open>
  A pattern \<^verbatim>\<open>\bW1\s+...\s+Wn\b\<close> of words of letters matches exactly the whole-word,
  case-insensitive occurrences of the phrase.
\<close>

lemma mem_ends_Alt:
  "e \<in> set (ends W (Alt r1 r2) s i) \<longleftrightarrow> e \<in> set (ends W r1 s i) \<or> e \<in> set (ends W r2 s i)"
  by simp

lemma mem_ends_WordB: "e \<in> set (ends W WordB s i) \<longleftrightarrow> e = i \<and> at_boundary W s i"
  by simp

lemma mem_ends_Lit:
  "e \<in> set (ends W (Lit c) s i) \<longleftrightarrow> i < length s \<and> lit_match c (s ! i) \<and> e = Suc i"
  by auto

lemma mem_ends_spaces: "e \<in> set (ends W (Plus Space) s i) \<longleftrightarrow> spaces s i e"
  unfolding mem_ends_Plus spaces_def all_in_def by simp

lemma mem_ends_seqs_Cons:
  "e \<in> set (ends W (seqs (r # rs)) s i) \<longleftrightarrow> (\<exists>m. m \<in> set (ends W r s i) \<and> e \<in> set (ends W (seqs rs) s m))"
  by (auto simp: seqs_def)

lemma mem_ends_seqs_Nil: "e \<in> set (ends W (seqs []) s i) \<longleftrightarrow> e = i"
  by (simp add: seqs_def)

text \<open>A keyword phrase begins and ends with a letter, so the two \<open>\b\<close> reduce to whole_word.\<close>

lemma at_boundary_start:
  "i < length s \<Longrightarrow> is_word W (s ! i) \<Longrightarrow> at_boundary W s i = (i = 0 \<or> \<not> is_word W (s ! (i - 1)))"
  by (auto simp: at_boundary_def)

lemma at_boundary_end:
  "0 < j \<Longrightarrow> j \<le> length s \<Longrightarrow> is_word W (s ! (j - 1)) \<Longrightarrow>
     at_boundary W s j = (length s \<le> j \<or> \<not> is_word W (s ! j))"
  by (auto simp: at_boundary_def)

lemma ci_word_letters:
  assumes "ci_word_at w s i" "letters w" "k < length w"
  shows "i + k < length s \<and> is_word W (s ! (i + k)) \<and> \<not> is_space (s ! (i + k)) \<and> s ! (i + k) \<noteq> DOT"
proof -
  from assms(3) have ne: "w \<noteq> []" by auto
  from ci_word_at_bound [OF assms(1) ne] assms(3) have b: "i + k < length s" by simp
  from assms(2,3) have l: "0x41 \<le> (of_char (w ! k) :: nat)" "(of_char (w ! k) :: nat) \<le> 0x5A"
    by (auto simp: letters_def)
  have eq: "lit_match (w ! k) (s ! (i + k))" by (rule ci_word_at_nth [OF assms(1,3)])
  from lit_match_letter [OF eq l] b show ?thesis by simp
qed

lemma keyword_boundary:
  assumes "ci_word_at w1 s i" "letters w1" "w1 \<noteq> []"
    and "ci_word_at w2 s k" "letters w2" "w2 \<noteq> []" "j = k + length w2"
  shows "(at_boundary W s i \<and> at_boundary W s j) = whole_word W s i j"
proof -
  from assms(3) have "0 < length w1" by simp
  from ci_word_letters [OF assms(1,2) this] have a: "i < length s" "is_word W (s ! i)" by simp_all
  from assms(6) have l: "length w2 - 1 < length w2" by simp
  from assms(6) have "0 < length w2" by simp
  with assms(7) have j: "k + (length w2 - 1) = j - 1" "0 < j" by arith+
  from ci_word_letters [OF assms(4,5) l] have "j - 1 < length s" "is_word W (s ! (j - 1))"
    unfolding j by simp_all
  with j(2) have b: "0 < j" "j \<le> length s" "is_word W (s ! (j - 1))" by simp_all
  show ?thesis
    unfolding at_boundary_start [OF a] at_boundary_end [OF b] whole_word_def ..
qed

lemma letters_words:
  "letters ''OPEN''" "letters ''DATASET''" "letters ''IN''" "letters ''TEXT''"
  "letters ''BINARY''" "letters ''MODE''" "letters ''ENCODING''"
  by (simp_all add: letters_def)

lemma seqs_word:
  "e \<in> set (ends W (seqs (word w # rest)) s i) \<longleftrightarrow>
     ci_word_at w s i \<and> e \<in> set (ends W (seqs rest) s (i + length w))"
  unfolding mem_ends_seqs_Cons mem_ends_word by blast

lemma seqs_WordB:
  "e \<in> set (ends W (seqs (WordB # rest)) s i) \<longleftrightarrow>
     at_boundary W s i \<and> e \<in> set (ends W (seqs rest) s i)"
  unfolding mem_ends_seqs_Cons mem_ends_WordB by blast

lemma seqs_spaces:
  "e \<in> set (ends W (seqs (Plus Space # rest)) s i) \<longleftrightarrow>
     (\<exists>k. spaces s i k \<and> e \<in> set (ends W (seqs rest) s k))"
  unfolding mem_ends_seqs_Cons mem_ends_spaces by blast

lemma seqs_Alt:
  "e \<in> set (ends W (seqs (Alt a b # rest)) s i) \<longleftrightarrow>
     e \<in> set (ends W (seqs (a # rest)) s i) \<or> e \<in> set (ends W (seqs (b # rest)) s i)"
  unfolding mem_ends_seqs_Cons mem_ends_Alt by blast

lemma phrase_at_Cons2:
  "phrase_at (w # w' # ws) s i j \<longleftrightarrow>
     ci_word_at w s i \<and> (\<exists>k. spaces s (i + length w) k \<and> phrase_at (w' # ws) s k j)"
  by (auto simp: spaces_def)

lemma phrase_at_single: "phrase_at [w] s i j \<longleftrightarrow> ci_word_at w s i \<and> j = i + length w"
  by simp

lemma keyword1:
  assumes "letters w1" "w1 \<noteq> []"
  shows "e \<in> set (ends W (seqs (WordB # word w1 # WordB # rest)) s i) \<longleftrightarrow>
     (\<exists>j. keyword_at W [w1] s i j \<and> e \<in> set (ends W (seqs rest) s j))"
  (is "?L = ?R")
proof
  assume ?L
  then have h: "at_boundary W s i" "ci_word_at w1 s i" "at_boundary W s (i + length w1)"
    "e \<in> set (ends W (seqs rest) s (i + length w1))"
    unfolding seqs_WordB seqs_word by blast+
  have "(at_boundary W s i \<and> at_boundary W s (i + length w1)) = whole_word W s i (i + length w1)"
    by (rule keyword_boundary [OF h(2) assms h(2) assms refl])
  with h show ?R unfolding keyword_at_def phrase_at_single by blast
next
  assume ?R
  then obtain j where r: "whole_word W s i j" "ci_word_at w1 s i" "j = i + length w1"
    "e \<in> set (ends W (seqs rest) s j)"
    unfolding keyword_at_def phrase_at_single by blast
  have "(at_boundary W s i \<and> at_boundary W s j) = whole_word W s i j"
    by (rule keyword_boundary [OF r(2) assms r(2) assms r(3)])
  with r show ?L unfolding seqs_WordB seqs_word by blast
qed

lemma keyword2:
  assumes "letters w1" "w1 \<noteq> []" "letters w2" "w2 \<noteq> []"
  shows "e \<in> set (ends W (seqs (WordB # word w1 # Plus Space # word w2 # WordB # rest)) s i) \<longleftrightarrow>
     (\<exists>j. keyword_at W [w1, w2] s i j \<and> e \<in> set (ends W (seqs rest) s j))"
  (is "?L = ?R")
proof
  assume ?L
  then obtain k where h: "at_boundary W s i" "ci_word_at w1 s i" "spaces s (i + length w1) k"
    "ci_word_at w2 s k" "at_boundary W s (k + length w2)"
    "e \<in> set (ends W (seqs rest) s (k + length w2))"
    unfolding seqs_WordB seqs_word seqs_spaces by blast
  have "(at_boundary W s i \<and> at_boundary W s (k + length w2)) = whole_word W s i (k + length w2)"
    by (rule keyword_boundary [OF h(2) assms(1,2) h(4) assms(3,4) refl])
  with h show ?R unfolding keyword_at_def phrase_at_Cons2 phrase_at_single by blast
next
  assume ?R
  then obtain j k where r: "whole_word W s i j" "ci_word_at w1 s i" "spaces s (i + length w1) k"
    "ci_word_at w2 s k" "j = k + length w2" "e \<in> set (ends W (seqs rest) s j)"
    unfolding keyword_at_def phrase_at_Cons2 phrase_at_single by blast
  have "(at_boundary W s i \<and> at_boundary W s j) = whole_word W s i j"
    by (rule keyword_boundary [OF r(2) assms(1,2) r(4) assms(3,4) r(5)])
  with r show ?L unfolding seqs_WordB seqs_word seqs_spaces by blast
qed

lemma keyword3:
  assumes "letters w1" "w1 \<noteq> []" "letters w3" "w3 \<noteq> []"
  shows "e \<in> set (ends W (seqs (WordB # word w1 # Plus Space # word w2 # Plus Space # word w3
            # WordB # rest)) s i) \<longleftrightarrow>
     (\<exists>j. keyword_at W [w1, w2, w3] s i j \<and> e \<in> set (ends W (seqs rest) s j))"
  (is "?L = ?R")
proof
  assume ?L
  then obtain k k' where h: "at_boundary W s i" "ci_word_at w1 s i" "spaces s (i + length w1) k"
    "ci_word_at w2 s k" "spaces s (k + length w2) k'" "ci_word_at w3 s k'"
    "at_boundary W s (k' + length w3)" "e \<in> set (ends W (seqs rest) s (k' + length w3))"
    unfolding seqs_WordB seqs_word seqs_spaces by blast
  have "(at_boundary W s i \<and> at_boundary W s (k' + length w3)) = whole_word W s i (k' + length w3)"
    by (rule keyword_boundary [OF h(2) assms(1,2) h(6) assms(3,4) refl])
  with h show ?R unfolding keyword_at_def phrase_at_Cons2 phrase_at_single by blast
next
  assume ?R
  then obtain j k k' where r: "whole_word W s i j" "ci_word_at w1 s i"
    "spaces s (i + length w1) k" "ci_word_at w2 s k" "spaces s (k + length w2) k'"
    "ci_word_at w3 s k'" "j = k' + length w3" "e \<in> set (ends W (seqs rest) s j)"
    unfolding keyword_at_def phrase_at_Cons2 phrase_at_single by blast
  have "(at_boundary W s i \<and> at_boundary W s j) = whole_word W s i j"
    by (rule keyword_boundary [OF r(2) assms(1,2) r(6) assms(3,4) r(7)])
  with r show ?L unfolding seqs_WordB seqs_word seqs_spaces by blast
qed

subsection \<open>The four patterns on a text\<close>

text \<open>
  Each pattern of the program agrees with its description in the specification.
\<close>

lemma words_nonempty:
  "''OPEN'' \<noteq> []" "''DATASET'' \<noteq> []" "''IN'' \<noteq> []" "''MODE'' \<noteq> []" "''ENCODING'' \<noteq> []"
  by simp_all

lemma tail_STMT:
  "e \<in> set (ends W (seqs [Star (NotChr DOT), Lit (CHR ''.'')]) s j) \<longleftrightarrow>
     j < e \<and> e \<le> length s \<and> all_in (NotChr DOT) s j (e - 1) \<and> s ! (e - 1) = DOT"
proof -
  have "e \<in> set (ends W (seqs [Star (NotChr DOT), Lit (CHR ''.'')]) s j) \<longleftrightarrow>
      (\<exists>m. j \<le> m \<and> all_in (NotChr DOT) s j m \<and> m < length s \<and> s ! m = DOT \<and> e = Suc m)"
    unfolding mem_ends_seqs_Cons mem_ends_seqs_Nil mem_ends_Star mem_ends_Lit lit_match_DOT
    by auto
  also have "\<dots> \<longleftrightarrow> j < e \<and> e \<le> length s \<and> all_in (NotChr DOT) s j (e - 1) \<and> s ! (e - 1) = DOT"
  proof
    assume "j < e \<and> e \<le> length s \<and> all_in (NotChr DOT) s j (e - 1) \<and> s ! (e - 1) = DOT"
    then have "j \<le> e - 1 \<and> all_in (NotChr DOT) s j (e - 1) \<and> e - 1 < length s \<and>
      s ! (e - 1) = DOT \<and> e = Suc (e - 1)" by auto
    then show "\<exists>m. j \<le> m \<and> all_in (NotChr DOT) s j m \<and> m < length s \<and> s ! m = DOT \<and> e = Suc m" ..
  qed auto
  finally show ?thesis .
qed

lemma mem_ends_STMT:
  "e \<in> set (ends W STMT_RE s i) \<longleftrightarrow>
     (\<exists>j. opening_at W s i j \<and> j < e \<and> e \<le> length s \<and> all_in (NotChr DOT) s j (e - 1)
          \<and> s ! (e - 1) = DOT)"
  unfolding STMT_RE_def opening_at_def
    keyword2 [OF letters_words(1) words_nonempty(1) letters_words(2) words_nonempty(2)]
    tail_STMT ..

lemma mem_ends_TEXT_MODE:
  "e \<in> set (ends W TEXT_MODE_RE s i) \<longleftrightarrow> keyword_at W [''IN'', ''TEXT'', ''MODE''] s i e"
  unfolding TEXT_MODE_RE_def
    keyword3 [OF letters_words(3) words_nonempty(3) letters_words(6) words_nonempty(4)]
    mem_ends_seqs_Nil by blast

lemma mem_ends_MODE:
  "e \<in> set (ends W MODE_RE s i) \<longleftrightarrow>
     keyword_at W [''IN'', ''TEXT'', ''MODE''] s i e \<or> keyword_at W [''IN'', ''BINARY'', ''MODE''] s i e"
proof -
  have "e \<in> set (ends W MODE_RE s i) \<longleftrightarrow>
      e \<in> set (ends W (seqs [WordB, word ''IN'', Plus Space, word ''TEXT'', Plus Space,
                          word ''MODE'', WordB]) s i) \<or>
      e \<in> set (ends W (seqs [WordB, word ''IN'', Plus Space, word ''BINARY'', Plus Space,
                          word ''MODE'', WordB]) s i)"
    unfolding MODE_RE_def seqs_WordB seqs_word seqs_spaces seqs_Alt by blast
  then show ?thesis
    unfolding keyword3 [OF letters_words(3) words_nonempty(3) letters_words(6) words_nonempty(4)]
      mem_ends_seqs_Nil by blast
qed

lemma mem_ends_ENCODING:
  "e \<in> set (ends W ENCODING_RE s i) \<longleftrightarrow>
     (\<exists>j k. keyword_at W [''ENCODING''] s i j \<and> spaces s j k \<and> k < e \<and> e \<le> length s \<and>
            all_in NonSpace s k e)"
proof -
  have "e' \<in> set (ends W (seqs [Plus Space, Plus NonSpace]) s j) \<longleftrightarrow>
      (\<exists>k. spaces s j k \<and> k < e' \<and> e' \<le> length s \<and> all_in NonSpace s k e')" for e' j
    unfolding seqs_spaces unfolding mem_ends_seqs_Cons mem_ends_seqs_Nil mem_ends_Plus by blast
  then show ?thesis
    unfolding ENCODING_RE_def keyword1 [OF letters_words(7) words_nonempty(5)] by blast
qed

lemma contains_keyword_iff:
  "contains_keyword W ws s \<longleftrightarrow> (\<exists>i\<le>length s. \<exists>j\<le>length s. keyword_at W ws s i j)"
  by (auto simp: contains_keyword_def)

lemma is_text_mode_iff: "search W TEXT_MODE_RE stmt \<noteq> None \<longleftrightarrow> text_mode W stmt"
proof -
  have "(\<exists>b\<le>length stmt. \<exists>e. e \<in> set (ends W TEXT_MODE_RE stmt b)) \<longleftrightarrow>
        (\<exists>b\<le>length stmt. \<exists>e\<le>length stmt. e \<in> set (ends W TEXT_MODE_RE stmt b))"
    using ends_range by blast
  then show ?thesis
    unfolding search_Some_iff text_mode_def contains_keyword_iff mem_ends_TEXT_MODE .
qed

lemma has_mode_iff: "search W MODE_RE stmt \<noteq> None \<longleftrightarrow> mode_present W stmt"
proof -
  have "(\<exists>b\<le>length stmt. \<exists>e. e \<in> set (ends W MODE_RE stmt b)) \<longleftrightarrow>
        (\<exists>b\<le>length stmt. \<exists>e\<le>length stmt. e \<in> set (ends W MODE_RE stmt b))"
    using ends_range by blast
  then show ?thesis
    unfolding search_Some_iff mode_present_def contains_keyword_iff mem_ends_MODE by blast
qed

lemma has_encoding_iff: "search W ENCODING_RE stmt \<noteq> None \<longleftrightarrow> encoding_present W stmt"
proof
  assume "search W ENCODING_RE stmt \<noteq> None"
  then obtain b e j k where h: "b \<le> length stmt" "keyword_at W [''ENCODING''] stmt b j"
    "spaces stmt j k" "k < e" "e \<le> length stmt" "all_in NonSpace stmt k e"
    unfolding search_Some_iff mem_ends_ENCODING by blast
  from h(4,6) have "\<not> is_space (stmt ! k)" by (simp add: all_in_def)
  moreover from h(3) have "j \<le> length stmt" by (simp add: spaces_def)
  moreover from h(4,5) have "k < length stmt" by simp
  ultimately show "encoding_present W stmt"
    using h(1,2,3) unfolding encoding_present_def by auto
next
  assume "encoding_present W stmt"
  then obtain i j k where r: "i \<le> length stmt" "keyword_at W [''ENCODING''] stmt i j"
    "spaces stmt j k" "k < length stmt" "\<not> is_space (stmt ! k)"
    unfolding encoding_present_def by auto
  from r(5) have "all_in NonSpace stmt k (Suc k)" by (simp add: all_in_def)
  with r have "Suc k \<in> set (ends W ENCODING_RE stmt i)"
    unfolding mem_ends_ENCODING by (intro exI [of _ j] exI [of _ k]) simp
  with r(1) show "search W ENCODING_RE stmt \<noteq> None"
    unfolding search_Some_iff by blast
qed

subsection \<open>The loop of \<open>scan_unit\<close>\<close>

text \<open>
  The loop appends the contribution of each match to the list; so the list is the
  concatenation of the contributions, and each contribution is decided by the three
  sub-checks.
\<close>

lemma scan_stmt_acc: "scan_stmt W u src base m acc = acc @ scan_stmt W u src base m []"
  by (simp add: scan_stmt_def Let_def)

lemma fold_scan_stmt:
  "fold (scan_stmt W u src base) ms acc = acc @ concat (map (\<lambda>m. scan_stmt W u src base m []) ms)"
proof (induction ms arbitrary: acc)
  case Nil
  show ?case by simp
next
  case (Cons m ms)
  show ?case using scan_stmt_acc [of W u src base m acc] by (simp add: Cons.IH)
qed

lemma scan_findings_concat:
  "scan_findings W u = concat (map (stmt_findings W u) (finditer W STMT_RE (src_of u)))"
  by (simp add: scan_findings_def Let_def fold_scan_stmt stmt_findings_def [abs_def])

lemma findings_scan_unit: "findings (scan_unit W u) = Some (scan_findings W u)"
  by (simp add: scan_unit_def)

lemma stmt_findings_cases:
  "stmt_findings W u m =
     (let snip = get_line_snippet (src_of u) (fst m) (snd m);
          l = base_of u + (count_nl (take (fst m) (src_of u)) + 1);
          l' = l + (count_nl snip + 1)
      in if \<not> mode_present W (group0 (src_of u) m) then
           [mk_finding u l l' (str ''OpenDatasetNoMode'') msg_no_mode sug_no_mode snip]
         else if text_mode W (group0 (src_of u) m) \<and> \<not> encoding_present W (group0 (src_of u) m) then
           [mk_finding u l l' (str ''OpenDatasetTextNoEncoding'') msg_no_encoding sug_no_encoding snip]
         else [])"
  unfolding stmt_findings_def scan_stmt_def has_mode_iff is_text_mode_iff has_encoding_iff Let_def
  by (simp add: add.assoc)

lemma mem_ends_OPENING: "e \<in> set (ends W OPENING_RE s i) \<longleftrightarrow> opening_at W s i e"
  unfolding OPENING_RE_def opening_at_def
    keyword2 [OF letters_words(1) words_nonempty(1) letters_words(2) words_nonempty(2)]
    mem_ends_seqs_Nil by blast

lemma contains_opening_iff:
  "search W OPENING_RE s \<noteq> None \<longleftrightarrow> contains_keyword W [''OPEN'', ''DATASET''] s"
proof -
  have "(\<exists>b\<le>length s. \<exists>e. e \<in> set (ends W OPENING_RE s b)) \<longleftrightarrow>
        (\<exists>b\<le>length s. \<exists>e\<le>length s. e \<in> set (ends W OPENING_RE s b))"
    using ends_range by blast
  then show ?thesis
    unfolding search_Some_iff contains_keyword_iff mem_ends_OPENING opening_at_def .
qed

lemma STMT_match_opening:
  assumes "e \<in> set (ends W STMT_RE s b)" "b \<le> length s"
  shows "contains_keyword W [''OPEN'', ''DATASET''] s"
proof -
  from assms(1) obtain j where j: "opening_at W s b j" "j < e" "e \<le> length s"
    unfolding mem_ends_STMT by blast
  then have "j \<le> length s" by simp
  with j(1) assms(2) show ?thesis
    unfolding contains_keyword_iff opening_at_def by blast
qed

lemma no_opening_no_match:
  assumes "\<not> contains_keyword W [''OPEN'', ''DATASET''] s"
  shows "finditer W STMT_RE s = []"
proof (rule finditer_no_match)
  fix b assume "b \<le> length s"
  with assms STMT_match_opening [of _ W s b] show "ends W STMT_RE s b = []"
    by (cases "ends W STMT_RE s b") auto
qed

lemma no_match_no_findings: "finditer W STMT_RE (src_of u) = [] \<Longrightarrow> findings (scan_unit W u) = Some []"
  by (simp add: findings_scan_unit scan_findings_concat)

lemma finditer_empty_text: "finditer W STMT_RE [] = []"
  by code_simp

lemma opening_no_DOT:
  assumes "opening_at W s i j" "i \<le> m" "m < j"
  shows "s ! m \<noteq> DOT"
proof -
  from assms(1) obtain k where o: "ci_word_at ''OPEN'' s i" "spaces s (i + length ''OPEN'') k"
    "ci_word_at ''DATASET'' s k" "j = k + length ''DATASET''"
    unfolding opening_at_def keyword_at_def phrase_at_Cons2 phrase_at_single by blast
  consider "m < i + length ''OPEN''" | "i + length ''OPEN'' \<le> m" "m < k" | "k \<le> m"
    by linarith
  then show ?thesis
  proof cases
    case 1
    with assms(2) have "m - i < length ''OPEN''" by arith
    from ci_word_letters [OF o(1) letters_words(1) this] assms(2) show ?thesis by simp
  next
    case 2
    with o(2) have "is_space (s ! m)" unfolding spaces_def by simp
    with not_space_DOT show ?thesis by auto
  next
    case 3
    with assms(3) o(4) have "m - k < length ''DATASET''" by arith
    from ci_word_letters [OF o(3) letters_words(2) this] 3 show ?thesis by simp
  qed
qed

lemma opening_lt: "opening_at W s i j \<Longrightarrow> i < j"
  unfolding opening_at_def keyword_at_def phrase_at_Cons2 phrase_at_single spaces_def by auto

lemma nth_in_drop: "i \<le> k \<Longrightarrow> k < length s \<Longrightarrow> s ! k \<in> set (drop i s)"
proof -
  assume a: "i \<le> k" "k < length s"
  then have "drop i s ! (k - i) = s ! k" "k - i < length (drop i s)" by simp_all
  then show ?thesis by (metis nth_mem)
qed

lemma STMT_span:
  assumes "m \<in> set (finditer W STMT_RE s)"
  shows "\<exists>j. opening_at W s (fst m) j \<and> j < snd m \<and> snd m \<le> length s \<and>
           s ! (snd m - 1) = DOT \<and> (\<forall>k\<in>{fst m..<snd m - 1}. s ! k \<noteq> DOT)"
proof -
  obtain b e where m: "m = (b, e)" by (cases m)
  with assms have "e \<in> set (ends W STMT_RE s b)"
    unfolding finditer_def using finditer_from_mem by blast
  then obtain j where j: "opening_at W s b j" "j < e" "e \<le> length s"
    "all_in (NotChr DOT) s j (e - 1)" "s ! (e - 1) = DOT"
    unfolding mem_ends_STMT by blast
  have "s ! k \<noteq> DOT" if "k \<in> {b..<e - 1}" for k
  proof (cases "k < j")
    case True
    with that opening_no_DOT [OF j(1), of k] show ?thesis by simp
  next
    case False
    with that j(4) show ?thesis by (simp add: all_in_def)
  qed
  with j m show ?thesis by auto
qed

lemma mk_finding_indep: "mk_finding (u\<lparr>findings := fs\<rparr>) = mk_finding u"
  by (intro ext) (simp add: mk_finding_def)

lemma scan_stmt_indep: "scan_stmt W (u\<lparr>findings := fs\<rparr>) = scan_stmt W u"
  by (intro ext) (simp add: scan_stmt_def mk_finding_indep Let_def)

lemma scan_findings_indep: "scan_findings W (u\<lparr>findings := fs\<rparr>) = scan_findings W u"
  by (simp add: scan_findings_def scan_stmt_indep src_of_def base_of_def)

lemma scan_unit_indep: "scan_unit W (u\<lparr>findings := fs\<rparr>) = scan_unit W u"
  by (simp add: scan_unit_def scan_findings_indep)

lemma stmt_findings_le1: "length (stmt_findings W u m) \<le> 1"
  by (simp add: stmt_findings_cases Let_def)

lemma STMT_matches_increasing:
  "sorted_wrt (\<lambda>m m'. fst m < snd m \<and> snd m \<le> fst m') (finditer W STMT_RE s)"
proof -
  have "sorted_wrt (\<lambda>m m'. snd m \<le> fst m') (finditer W STMT_RE s)"
    unfolding finditer_def by (rule finditer_from_sorted)
  moreover have "fst m < snd m" if "m \<in> set (finditer W STMT_RE s)" for m
    using STMT_span [OF that] opening_lt by fastforce
  ultimately show ?thesis
    using sorted_wrt_mono_rel [of "finditer W STMT_RE s" "\<lambda>m m'. snd m \<le> fst m'"
        "\<lambda>m m'. fst m < snd m \<and> snd m \<le> fst m'"]
    by blast
qed

subsection \<open>Lines and snippets\<close>

text \<open>
  The two searches for a newline in \<open>get_line_snippet\<close> find the bounds of the lines of the match.
\<close>

lemma index_of_None: "index_of c xs = None \<longleftrightarrow> c \<notin> set xs"
  by (induction xs) (auto split: option.splits)

lemma index_of_Some:
  "index_of c xs = Some k \<Longrightarrow> k < length xs \<and> xs ! k = c \<and> (\<forall>j<k. xs ! j \<noteq> c)"
proof (induction xs arbitrary: k)
  case Nil
  then show ?case by simp
next
  case (Cons x xs)
  show ?case
  proof (cases "x = c")
    case True
    with Cons.prems show ?thesis by simp
  next
    case False
    with Cons.prems obtain k' where k': "index_of c xs = Some k'" "k = Suc k'"
      by (auto split: option.splits)
    from Cons.IH [OF k'(1)] False k'(2) show ?thesis by (auto simp: nth_Cons')
  qed
qed

lemma find_chr_line_end:
  assumes "b \<le> length s"
  shows "is_line_end s b
     (nat (let e = find_chr s NL b in if e = - 1 then int (length s) else e))"
proof (cases "index_of NL (drop b s)")
  case None
  then have "NL \<notin> set (drop b s)" by (simp add: index_of_None)
  then have "\<forall>k\<in>{b..<length s}. s ! k \<noteq> NL"
    using nth_in_drop [of b _ s] by (metis atLeastLessThan_iff)
  with None assms show ?thesis by (simp add: find_chr_def is_line_end_def)
next
  case (Some k)
  from index_of_Some [OF Some] have k: "b + k < length s" "s ! (b + k) = NL"
    "\<forall>j<k. s ! (b + j) \<noteq> NL" using assms by auto
  have "\<forall>m\<in>{b..<b + k}. s ! m \<noteq> NL"
  proof
    fix m assume "m \<in> {b..<b + k}"
    then have "m - b < k" "b + (m - b) = m" by auto
    with k(3) show "s ! m \<noteq> NL" by metis
  qed
  moreover have "nat (int b + int k) = b + k" by arith
  ultimately show ?thesis using Some k by (simp add: find_chr_def is_line_end_def)
qed

lemma rfind_chr_line_start:
  assumes "a \<le> length s"
  shows "is_line_start s a
     (nat (let b = rfind_chr s NL a in if b = - 1 then 0 else b + 1))"
proof (cases "index_of NL (rev (take a s))")
  case None
  then have "NL \<notin> set (take a s)" by (simp add: index_of_None)
  then have "\<forall>k\<in>{0..<a}. s ! k \<noteq> NL"
    using assms by (auto simp: in_set_conv_nth)
  with None show ?thesis by (simp add: rfind_chr_def is_line_start_def)
next
  case (Some k)
  from assms have len: "length (take a s) = a" by simp
  from index_of_Some [OF Some] have k: "k < a" "rev (take a s) ! k = NL"
    "\<forall>j<k. rev (take a s) ! j \<noteq> NL" using len by auto
  from k(1) len have "rev (take a s) ! k = s ! (a - Suc k)" by (simp add: rev_nth)
  with k(2) have p: "s ! (a - Suc k) = NL" by simp
  have "\<forall>m\<in>{a - k..<a}. s ! m \<noteq> NL"
  proof
    fix m assume m: "m \<in> {a - k..<a}"
    then have j: "a - Suc m < k" using k(1) by auto
    then have "rev (take a s) ! (a - Suc m) = s ! (a - Suc (a - Suc m))"
      using m len by (simp add: rev_nth)
    moreover from m have "a - Suc (a - Suc m) = m" by auto
    ultimately show "s ! m \<noteq> NL" using k(3) j by metis
  qed
  moreover from k(1) have "nat (int (a - Suc k) + 1) = a - k" by auto
  ultimately show ?thesis using Some p k(1) len
    by (simp add: rfind_chr_def is_line_start_def)
qed

lemma get_line_snippet_lines:
  assumes "a \<le> length s" "b \<le> length s"
  shows "\<exists>ls le. is_line_start s a ls \<and> is_line_end s b le \<and> get_line_snippet s a b = slice s ls le"
  unfolding get_line_snippet_def Let_def
  using rfind_chr_line_start [OF assms(1), unfolded Let_def]
    find_chr_line_end [OF assms(2), unfolded Let_def]
  by blast

lemma replace_nl_no_NL: "NL \<notin> set (replace_nl s)"
  by (induction s) (auto simp: replace_nl_def NL_def)

lemma finding_of_match:
  "f \<in> set (scan_findings W u) \<Longrightarrow> \<exists>m\<in>set (finditer W STMT_RE (src_of u)). f \<in> set (stmt_findings W u m)"
  by (auto simp: scan_findings_concat)

lemma stmt_finding_fields:
  assumes "f \<in> set (stmt_findings W u m)"
  shows "starting_line f = Some (base_of u + (count_nl (take (fst m) (src_of u)) + 1)) \<and>
         ending_line f = Some (base_of u + (count_nl (take (fst m) (src_of u)) + 1) +
            (count_nl (get_line_snippet (src_of u) (fst m) (snd m)) + 1)) \<and>
         snippet f = Some (replace_nl (get_line_snippet (src_of u) (fst m) (snd m)))"
  using assms by (auto simp: stmt_findings_cases Let_def mk_finding_def split: if_splits)

lemma match_in_text:
  "m \<in> set (finditer W STMT_RE s) \<Longrightarrow> fst m \<le> length s \<and> snd m \<le> length s"
  using finditer_from_mem [of "fst m" "snd m" W STMT_RE s 0 False] by (simp add: finditer_def)

subsection \<open>Objects and the batch loop\<close>

lemma scan_unit_heap_eq:
  "scan_unit_heap W h unit = (length h, h @ [scan_unit W (h ! unit)])"
  by (simp add: scan_unit_heap_def model_copy_def set_findings_def scan_unit_def Let_def)

lemma scan_unit_idem: "scan_unit W (scan_unit W u) = scan_unit W u"
proof -
  have "scan_unit W u = u\<lparr>findings := Some (scan_findings W u)\<rparr>" by (simp add: scan_unit_def)
  then have "scan_unit W (scan_unit W u) = scan_unit W u" by (metis scan_unit_indep)
  then show ?thesis .
qed

lemma fold_batch:
  "fold (\<lambda>u results. let res = scan_unit W u in
            if truthy (findings res) then results @ [res] else results) units acc
   = acc @ filter (\<lambda>res. findings res \<noteq> Some []) (map (scan_unit W) units)"
  by (induction units arbitrary: acc) (simp_all add: Let_def truthy_def findings_scan_unit)

subsection \<open>Findings, match by match\<close>

text \<open>
  The counts and the replacement of the program in terms of the list library, and the
  fields of a finding in terms of the text and the span of its match alone.
\<close>

lemma count_nl_count_list: "count_nl s = int (count_list s NL)"
  by (induction s) (simp_all add: count_nl_def)

lemma stmt_finding_of_span:
  assumes "m \<in> set (finditer W STMT_RE (src_of u))" and "f \<in> set (stmt_findings W u m)"
  shows "\<exists>ls le. is_line_start (src_of u) (fst m) ls \<and> is_line_end (src_of u) (snd m) le \<and>
     starting_line f =
       Some ((case start_line u of None \<Rightarrow> 0 | Some n \<Rightarrow> n) +
             (int (count_list (take (fst m) (src_of u)) NL) + 1)) \<and>
     ending_line f =
       Some (the (starting_line f) +
             (int (count_list (take (le - ls) (drop ls (src_of u))) NL) + 1)) \<and>
     snippet f =
       Some (concat (map (\<lambda>c. if c = NL then [0x5C, 0x6E] else [c])
               (take (le - ls) (drop ls (src_of u)))))"
proof -
  from match_in_text [OF assms(1)] obtain ls le where l: "is_line_start (src_of u) (fst m) ls"
    "is_line_end (src_of u) (snd m) le"
    "get_line_snippet (src_of u) (fst m) (snd m) = take (le - ls) (drop ls (src_of u))"
    using get_line_snippet_lines [of "fst m" "src_of u" "snd m"] unfolding slice_def by blast
  from stmt_finding_fields [OF assms(2)] l(3)
  have "starting_line f =
       Some ((case start_line u of None \<Rightarrow> 0 | Some n \<Rightarrow> n) +
             (int (count_list (take (fst m) (src_of u)) NL) + 1))"
    and "ending_line f =
       Some (the (starting_line f) +
             (int (count_list (take (le - ls) (drop ls (src_of u))) NL) + 1))"
    and "snippet f =
       Some (concat (map (\<lambda>c. if c = NL then [0x5C, 0x6E] else [c])
               (take (le - ls) (drop ls (src_of u)))))"
    by (simp_all add: base_of_def count_nl_count_list replace_nl_def)
  with l(1,2) show ?thesis by blast
qed

lemma escaped_no_NL: "NL \<notin> set (concat (map (\<lambda>c. if c = NL then [0x5C, 0x6E] else [c]) s))"
  using replace_nl_no_NL [of s] by (simp add: replace_nl_def)

lemma src_of_code: "src_of u = (case code u of None \<Rightarrow> [] | Some c \<Rightarrow> c)"
  by (simp add: src_of_def)

section \<open>The claims\<close>

text \<open>
  C1. The findings of \<open>scan_unit\<close> are the findings of its matched statements, in order,
  and a matched statement whose text (the characters of the unit's code from the start to
  the end of the match) has no mode clause contributes exactly one finding, of kind
  \<^verbatim>\<open>OpenDatasetNoMode\<close> and severity \<^verbatim>\<open>error\<close>; so no \<^verbatim>\<open>OpenDatasetTextNoEncoding\<close> finding
  is emitted for it. A mode clause is a whole-word occurrence of \<^verbatim>\<open>IN TEXT MODE\<close> or
  \<^verbatim>\<open>IN BINARY MODE\<close>, the words separated by white space and read up to case, where up to
  case is what \<^verbatim>\<open>(?i)\<close> takes it to be: besides the letter in both cases, U+0130 and U+0131
  stand for I (and U+017F for S).
\<close>

theorem scan_unit_no_mode:
  "src_of u = (case code u of None \<Rightarrow> [] | Some c \<Rightarrow> c) \<and>
   findings (scan_unit W u) =
     Some (concat (map (stmt_findings W u) (finditer W STMT_RE (src_of u)))) \<and>
   (\<forall>m\<in>set (finditer W STMT_RE (src_of u)).
      \<not> mode_present W (take (snd m - fst m) (drop (fst m) (src_of u))) \<longrightarrow>
      (\<exists>f. stmt_findings W u m = [f] \<and> issues_type f = Some (str ''OpenDatasetNoMode'') \<and>
           issues_type f \<noteq> Some (str ''OpenDatasetTextNoEncoding'') \<and>
           severity f = Some (str ''error'')))"
  by (simp add: src_of_code findings_scan_unit scan_findings_concat
      stmt_findings_cases [unfolded group0_def] mk_finding_def Let_def str_def)

theorem scan_unit_no_mode_witness:
  "finditer W0 STMT_RE (src_of (ex_unit ex_two)) = [(0, 15), (16, 44)] \<and>
   \<not> mode_present W0 (take 15 (drop 0 (src_of (ex_unit ex_two)))) \<and>
   mode_present W0 (take 28 (drop 16 (src_of (ex_unit ex_two)))) \<and>
   (\<exists>f. stmt_findings W0 (ex_unit ex_two) (0, 15) = [f] \<and>
        issues_type f = Some (str ''OpenDatasetNoMode'') \<and>
        issues_type f \<noteq> Some (str ''OpenDatasetTextNoEncoding'') \<and>
        severity f = Some (str ''error''))"
proof -
  have m: "finditer W0 STMT_RE (src_of (ex_unit ex_two)) = [(0, 15), (16, 44)]" by code_simp
  have "search W0 MODE_RE (take 15 (drop 0 (src_of (ex_unit ex_two)))) = None" by code_simp
  then have n: "\<not> mode_present W0 (take 15 (drop 0 (src_of (ex_unit ex_two))))"
    using has_mode_iff by blast
  have "search W0 MODE_RE (take 28 (drop 16 (src_of (ex_unit ex_two)))) \<noteq> None" by code_simp
  then have p: "mode_present W0 (take 28 (drop 16 (src_of (ex_unit ex_two))))"
    unfolding has_mode_iff .
  from scan_unit_no_mode [where W = W0 and u = "ex_unit ex_two"] m n
  have "\<exists>f. stmt_findings W0 (ex_unit ex_two) (0, 15) = [f] \<and>
        issues_type f = Some (str ''OpenDatasetNoMode'') \<and>
        issues_type f \<noteq> Some (str ''OpenDatasetTextNoEncoding'') \<and>
        severity f = Some (str ''error'')" by simp
  with m n p show ?thesis by blast
qed

text \<open>
  C2. A matched statement whose text (the characters of the unit's code from the start to
  the end of the match) has a mode clause contributes exactly one finding, of kind
  \<^verbatim>\<open>OpenDatasetTextNoEncoding\<close>, when it is in text mode (it contains \<^verbatim>\<open>IN TEXT MODE\<close>) and
  does not contain the keyword \<^verbatim>\<open>ENCODING\<close> followed, after white space, by a
  non-white-space character; otherwise (binary mode, or text mode with such an encoding
  clause) it contributes no finding. Text mode is the sub-check of the specification: the
  statement contains \<^verbatim>\<open>IN TEXT MODE\<close>, whatever else it contains. The keywords are read up
  to case as \<^verbatim>\<open>(?i)\<close> does: U+0130 and U+0131 stand for I as well.
\<close>

theorem scan_unit_with_mode:
  "src_of u = (case code u of None \<Rightarrow> [] | Some c \<Rightarrow> c) \<and>
   findings (scan_unit W u) =
     Some (concat (map (stmt_findings W u) (finditer W STMT_RE (src_of u)))) \<and>
   (\<forall>m\<in>set (finditer W STMT_RE (src_of u)).
      mode_present W (take (snd m - fst m) (drop (fst m) (src_of u))) \<longrightarrow>
      (if text_mode W (take (snd m - fst m) (drop (fst m) (src_of u))) \<and>
          \<not> encoding_present W (take (snd m - fst m) (drop (fst m) (src_of u)))
       then \<exists>f. stmt_findings W u m = [f] \<and>
              issues_type f = Some (str ''OpenDatasetTextNoEncoding'')
       else stmt_findings W u m = []))"
  by (simp add: src_of_code findings_scan_unit scan_findings_concat
      stmt_findings_cases [unfolded group0_def] mk_finding_def Let_def)

theorem scan_unit_with_mode_witness:
  "finditer W0 STMT_RE (src_of (ex_unit ex_two)) = [(0, 15), (16, 44)] \<and>
   \<not> encoding_present W0 (take 28 (drop 16 (src_of (ex_unit ex_two)))) \<and>
   (\<exists>f. stmt_findings W0 (ex_unit ex_two) (16, 44) = [f] \<and>
        issues_type f = Some (str ''OpenDatasetTextNoEncoding'')) \<and>
   finditer W0 STMT_RE (src_of (ex_unit ex_binary)) = [(0, 30)] \<and>
   mode_present W0 (take 30 (drop 0 (src_of (ex_unit ex_binary)))) \<and>
   \<not> text_mode W0 (take 30 (drop 0 (src_of (ex_unit ex_binary)))) \<and>
   stmt_findings W0 (ex_unit ex_binary) (0, 30) = [] \<and>
   finditer W0 STMT_RE (src_of (ex_unit ex_utf8)) = [(0, 43)] \<and>
   text_mode W0 (take 43 (drop 0 (src_of (ex_unit ex_utf8)))) \<and>
   encoding_present W0 (take 43 (drop 0 (src_of (ex_unit ex_utf8)))) \<and>
   stmt_findings W0 (ex_unit ex_utf8) (0, 43) = [] \<and>
   finditer W0 STMT_RE (src_of (ex_unit ex_dotless)) = [(0, 28)] \<and>
   text_mode W0 (take 28 (drop 0 (src_of (ex_unit ex_dotless)))) \<and>
   (\<exists>f. stmt_findings W0 (ex_unit ex_dotless) (0, 28) = [f] \<and>
        issues_type f = Some (str ''OpenDatasetTextNoEncoding''))"
proof -
  have m1: "finditer W0 STMT_RE (src_of (ex_unit ex_two)) = [(0, 15), (16, 44)]" by code_simp
  have "search W0 TEXT_MODE_RE (take 28 (drop 16 (src_of (ex_unit ex_two)))) \<noteq> None"
    by code_simp
  then have b1: "text_mode W0 (take 28 (drop 16 (src_of (ex_unit ex_two))))"
    unfolding is_text_mode_iff .
  then have a1: "mode_present W0 (take 28 (drop 16 (src_of (ex_unit ex_two))))"
    by (simp add: mode_present_def text_mode_def)
  have "\<not> search W0 ENCODING_RE (take 28 (drop 16 (src_of (ex_unit ex_two)))) \<noteq> None"
    by code_simp
  then have c1: "\<not> encoding_present W0 (take 28 (drop 16 (src_of (ex_unit ex_two))))"
    unfolding has_encoding_iff .
  have m2: "finditer W0 STMT_RE (src_of (ex_unit ex_binary)) = [(0, 30)]" by code_simp
  have "search W0 MODE_RE (take 30 (drop 0 (src_of (ex_unit ex_binary)))) \<noteq> None" by code_simp
  then have a2: "mode_present W0 (take 30 (drop 0 (src_of (ex_unit ex_binary))))"
    unfolding has_mode_iff .
  have "\<not> search W0 TEXT_MODE_RE (take 30 (drop 0 (src_of (ex_unit ex_binary)))) \<noteq> None"
    by code_simp
  then have b2: "\<not> text_mode W0 (take 30 (drop 0 (src_of (ex_unit ex_binary))))"
    unfolding is_text_mode_iff .
  have m3: "finditer W0 STMT_RE (src_of (ex_unit ex_utf8)) = [(0, 43)]" by code_simp
  have "search W0 TEXT_MODE_RE (take 43 (drop 0 (src_of (ex_unit ex_utf8)))) \<noteq> None"
    by code_simp
  then have b3: "text_mode W0 (take 43 (drop 0 (src_of (ex_unit ex_utf8))))"
    unfolding is_text_mode_iff .
  then have a3: "mode_present W0 (take 43 (drop 0 (src_of (ex_unit ex_utf8))))"
    by (simp add: mode_present_def text_mode_def)
  have "search W0 ENCODING_RE (take 43 (drop 0 (src_of (ex_unit ex_utf8)))) \<noteq> None"
    by code_simp
  then have c3: "encoding_present W0 (take 43 (drop 0 (src_of (ex_unit ex_utf8))))"
    unfolding has_encoding_iff .
  have m4: "finditer W0 STMT_RE (src_of (ex_unit ex_dotless)) = [(0, 28)]" by code_simp
  have "search W0 TEXT_MODE_RE (take 28 (drop 0 (src_of (ex_unit ex_dotless)))) \<noteq> None"
    by code_simp
  then have b4: "text_mode W0 (take 28 (drop 0 (src_of (ex_unit ex_dotless))))"
    unfolding is_text_mode_iff .
  then have a4: "mode_present W0 (take 28 (drop 0 (src_of (ex_unit ex_dotless))))"
    by (simp add: mode_present_def text_mode_def)
  have "\<not> search W0 ENCODING_RE (take 28 (drop 0 (src_of (ex_unit ex_dotless)))) \<noteq> None"
    by code_simp
  then have c4: "\<not> encoding_present W0 (take 28 (drop 0 (src_of (ex_unit ex_dotless))))"
    unfolding has_encoding_iff .
  from scan_unit_with_mode [where W = W0 and u = "ex_unit ex_two"] m1 a1 b1 c1
  have r1: "\<exists>f. stmt_findings W0 (ex_unit ex_two) (16, 44) = [f] \<and>
        issues_type f = Some (str ''OpenDatasetTextNoEncoding'')" by simp
  from scan_unit_with_mode [where W = W0 and u = "ex_unit ex_binary"] m2 a2 b2
  have r2: "stmt_findings W0 (ex_unit ex_binary) (0, 30) = []" by simp
  from scan_unit_with_mode [where W = W0 and u = "ex_unit ex_utf8"] m3 a3 b3 c3
  have r3: "stmt_findings W0 (ex_unit ex_utf8) (0, 43) = []" by simp
  from scan_unit_with_mode [where W = W0 and u = "ex_unit ex_dotless"] m4 a4 b4 c4
  have r4: "\<exists>f. stmt_findings W0 (ex_unit ex_dotless) (0, 28) = [f] \<and>
        issues_type f = Some (str ''OpenDatasetTextNoEncoding'')" by simp
  from m1 c1 r1 m2 a2 b2 r2 m3 b3 c3 r3 m4 b4 r4 show ?thesis by blast
qed

text \<open>
  C3. A unit whose code has no case-insensitive whole-word occurrence of the opening phrase
  \<^verbatim>\<open>OPEN DATASET\<close> (the two words separated by white space) has no matched statement and
  gets the empty list of findings. Up to case is what \<^verbatim>\<open>(?i)\<close> takes it to be: U+017F
  stands for S as well, and white space is the white space of Unicode. \<open>scan_unit\<close> is a total function: every unit, also one
  whose code is absent or empty, gets a list of findings, and for absent or empty code the
  list is empty.
\<close>

theorem scan_unit_no_opening:
  "(\<not> contains_keyword W [''OPEN'', ''DATASET''] (src_of u) \<longrightarrow>
      finditer W STMT_RE (src_of u) = [] \<and> findings (scan_unit W u) = Some []) \<and>
   (code u = None \<or> code u = Some [] \<longrightarrow>
      src_of u = [] \<and> finditer W STMT_RE (src_of u) = [] \<and> findings (scan_unit W u) = Some []) \<and>
   (\<exists>fs. findings (scan_unit W u) = Some fs)"
proof (intro conjI impI)
  assume a: "\<not> contains_keyword W [''OPEN'', ''DATASET''] (src_of u)"
  from no_opening_no_match [OF a] show "finditer W STMT_RE (src_of u) = []" .
  then show "findings (scan_unit W u) = Some []" by (rule no_match_no_findings)
next
  assume "code u = None \<or> code u = Some []"
  then show e: "src_of u = []" by (auto simp: src_of_def)
  then show f: "finditer W STMT_RE (src_of u) = []" by (simp add: finditer_empty_text)
  then show "findings (scan_unit W u) = Some []" by (rule no_match_no_findings)
next
  show "\<exists>fs. findings (scan_unit W u) = Some fs" by (simp add: findings_scan_unit)
qed

theorem scan_unit_no_opening_witness:
  "\<not> contains_keyword W0 [''OPEN'', ''DATASET''] (src_of (ex_unit (str ''OPEN F.''))) \<and>
   finditer W0 STMT_RE (src_of (ex_unit (str ''OPEN F.''))) = [] \<and>
   findings (scan_unit W0 (ex_unit (str ''OPEN F.''))) = Some [] \<and>
   code (ex_unit []) = Some [] \<and>
   finditer W0 STMT_RE (src_of (ex_unit [])) = [] \<and>
   findings (scan_unit W0 (ex_unit [])) = Some [] \<and>
   contains_keyword W0 [''OPEN'', ''DATASET''] (src_of (ex_unit ex_long_s)) \<and>
   finditer W0 STMT_RE (src_of (ex_unit ex_long_s)) = [(0, 15)]"
proof -
  have "search W0 OPENING_RE (src_of (ex_unit ex_long_s)) \<noteq> None" by code_simp
  then have c: "contains_keyword W0 [''OPEN'', ''DATASET''] (src_of (ex_unit ex_long_s))"
    unfolding contains_opening_iff .
  have d: "finditer W0 STMT_RE (src_of (ex_unit ex_long_s)) = [(0, 15)]" by code_simp
  have "\<not> search W0 OPENING_RE (src_of (ex_unit (str ''OPEN F.''))) \<noteq> None" by code_simp
  then have a: "\<not> contains_keyword W0 [''OPEN'', ''DATASET''] (src_of (ex_unit (str ''OPEN F.'')))"
    unfolding contains_opening_iff .
  have b: "code (ex_unit []) = Some []" by (simp add: ex_unit_def)
  from scan_unit_no_opening [where W = W0 and u = "ex_unit (str ''OPEN F.'')"]
    scan_unit_no_opening [where W = W0 and u = "ex_unit []"] a b c d
  show ?thesis by blast
qed

text \<open>
  C4. Every finding is the finding of one matched statement, and carries the lines of that
  statement. Its \<open>starting_line\<close> is the unit's \<open>start_line\<close> (0 when absent) plus the number
  of newlines before the match start plus 1; its \<open>ending_line\<close> is its \<open>starting_line\<close>
  plus the number of newlines in the snippet plus 1, where the snippet is the text of the
  lines of the match before its newlines are escaped. For the unit with \<open>start_line = 10\<close>
  and the code \<^verbatim>\<open>"A.\nOPEN DATASET F.\n"\<close> the one finding has \<open>starting_line = 12\<close>.
\<close>

theorem finding_lines:
  "NL = 0x0A \<and>
   src_of u = (case code u of None \<Rightarrow> [] | Some c \<Rightarrow> c) \<and>
   findings (scan_unit W u) =
     Some (concat (map (stmt_findings W u) (finditer W STMT_RE (src_of u)))) \<and>
   (\<forall>m\<in>set (finditer W STMT_RE (src_of u)). \<forall>f\<in>set (stmt_findings W u m). \<exists>ls le.
      is_line_start (src_of u) (fst m) ls \<and> is_line_end (src_of u) (snd m) le \<and>
      starting_line f =
        Some ((case start_line u of None \<Rightarrow> 0 | Some n \<Rightarrow> n) +
              (int (count_list (take (fst m) (src_of u)) NL) + 1)) \<and>
      ending_line f =
        Some (the (starting_line f) +
              (int (count_list (take (le - ls) (drop ls (src_of u))) NL) + 1))) \<and>
   start_line (ex_unit ex_code) = Some 10 \<and>
   code (ex_unit ex_code) = Some (str ''A.'' @ [NL] @ str ''OPEN DATASET F.'' @ [NL]) \<and>
   map starting_line (the (findings (scan_unit W (ex_unit ex_code)))) = [Some 12]"
proof -
  have a: "\<exists>ls le.
      is_line_start (src_of u) (fst m) ls \<and> is_line_end (src_of u) (snd m) le \<and>
      starting_line f =
        Some ((case start_line u of None \<Rightarrow> 0 | Some n \<Rightarrow> n) +
              (int (count_list (take (fst m) (src_of u)) NL) + 1)) \<and>
      ending_line f =
        Some (the (starting_line f) +
              (int (count_list (take (le - ls) (drop ls (src_of u))) NL) + 1))"
    if "m \<in> set (finditer W STMT_RE (src_of u))" and "f \<in> set (stmt_findings W u m)" for m f
    using stmt_finding_of_span [OF that] by blast
  have b: "map starting_line (scan_findings W (ex_unit ex_code)) = [Some 12]" by code_simp
  have c: "code (ex_unit ex_code) = Some (str ''A.'' @ [NL] @ str ''OPEN DATASET F.'' @ [NL])"
    by (simp add: ex_unit_def ex_code_def)
  have d: "start_line (ex_unit ex_code) = Some 10" by (simp add: ex_unit_def)
  have e: "NL = 0x0A" by (simp add: NL_def)
  from a b c d e show ?thesis
    by (simp add: src_of_code [symmetric] findings_scan_unit scan_findings_concat [symmetric])
qed

theorem finding_lines_witness:
  "finditer W0 STMT_RE (src_of (ex_unit ex_second)) = [(0, 30), (34, 49)] \<and>
   stmt_findings W0 (ex_unit ex_second) (0, 30) = [] \<and>
   start_line (ex_unit ex_second) = Some 10 \<and>
   int (count_list (take 34 (src_of (ex_unit ex_second))) NL) = 2 \<and>
   (\<exists>f ls le. stmt_findings W0 (ex_unit ex_second) (34, 49) = [f] \<and>
      is_line_start (src_of (ex_unit ex_second)) 34 ls \<and>
      is_line_end (src_of (ex_unit ex_second)) 49 le \<and>
      starting_line f = Some 13 \<and>
      ending_line f =
        Some (13 + (int (count_list (take (le - ls) (drop ls (src_of (ex_unit ex_second)))) NL) + 1)) \<and>
      ending_line f = Some 14)"
proof -
  have m: "finditer W0 STMT_RE (src_of (ex_unit ex_second)) = [(0, 30), (34, 49)]" by code_simp
  have e: "stmt_findings W0 (ex_unit ex_second) (0, 30) = []" by code_simp
  have s: "start_line (ex_unit ex_second) = Some 10" by (simp add: ex_unit_def)
  have c: "int (count_list (take 34 (src_of (ex_unit ex_second))) NL) = 2" by code_simp
  have "map ending_line (stmt_findings W0 (ex_unit ex_second) (34, 49)) = [Some 14]"
    by code_simp
  then obtain f where f: "stmt_findings W0 (ex_unit ex_second) (34, 49) = [f]"
    "ending_line f = Some 14"
    by (cases "stmt_findings W0 (ex_unit ex_second) (34, 49)") auto
  from finding_lines [where W = W0 and u = "ex_unit ex_second"] m f(1) s c
  obtain ls le where l: "is_line_start (src_of (ex_unit ex_second)) 34 ls"
    "is_line_end (src_of (ex_unit ex_second)) 49 le"
    "starting_line f = Some 13"
    "ending_line f =
      Some (13 + (int (count_list (take (le - ls) (drop ls (src_of (ex_unit ex_second)))) NL) + 1))"
    by auto
  from m e s c f l show ?thesis by blast
qed

text \<open>
  C5. Every finding is the finding of one matched statement, and its snippet is the text of
  the source lines of that statement: from the character after the last newline before the
  match start (or the start of the text) up to the first newline from the match end on (or
  the end of the text), in which every newline is replaced by a backslash and the letter
  n; the attached string has no newline.
\<close>

theorem finding_snippet:
  "NL = 0x0A \<and>
   src_of u = (case code u of None \<Rightarrow> [] | Some c \<Rightarrow> c) \<and>
   findings (scan_unit W u) =
     Some (concat (map (stmt_findings W u) (finditer W STMT_RE (src_of u)))) \<and>
   (\<forall>m\<in>set (finditer W STMT_RE (src_of u)). \<forall>f\<in>set (stmt_findings W u m). \<exists>ls le.
      is_line_start (src_of u) (fst m) ls \<and> is_line_end (src_of u) (snd m) le \<and>
      snippet f =
        Some (concat (map (\<lambda>c. if c = NL then [0x5C, 0x6E] else [c])
                (take (le - ls) (drop ls (src_of u))))) \<and>
      NL \<notin> set (the (snippet f)))"
proof -
  have a: "\<exists>ls le.
      is_line_start (src_of u) (fst m) ls \<and> is_line_end (src_of u) (snd m) le \<and>
      snippet f =
        Some (concat (map (\<lambda>c. if c = NL then [0x5C, 0x6E] else [c])
                (take (le - ls) (drop ls (src_of u))))) \<and>
      NL \<notin> set (the (snippet f))"
    if "m \<in> set (finditer W STMT_RE (src_of u))" and "f \<in> set (stmt_findings W u m)" for m f
  proof -
    from stmt_finding_of_span [OF that] obtain ls le where
      l: "is_line_start (src_of u) (fst m) ls" "is_line_end (src_of u) (snd m) le"
      "snippet f =
        Some (concat (map (\<lambda>c. if c = NL then [0x5C, 0x6E] else [c])
                (take (le - ls) (drop ls (src_of u)))))"
      by blast
    from l(3) have "NL \<notin> set (the (snippet f))" by (simp only: option.sel escaped_no_NL not_False_eq_True)
    with l show ?thesis by blast
  qed
  moreover have "NL = 0x0A" by (simp add: NL_def)
  ultimately show ?thesis
    by (simp add: src_of_code [symmetric] findings_scan_unit scan_findings_concat [symmetric])
qed

theorem finding_snippet_witness:
  "finditer W0 STMT_RE (src_of (ex_unit ex_second)) = [(0, 30), (34, 49)] \<and>
   stmt_findings W0 (ex_unit ex_second) (0, 30) = [] \<and>
   (\<exists>f ls le. stmt_findings W0 (ex_unit ex_second) (34, 49) = [f] \<and>
      is_line_start (src_of (ex_unit ex_second)) 34 ls \<and>
      is_line_end (src_of (ex_unit ex_second)) 49 le \<and>
      snippet f =
        Some (concat (map (\<lambda>c. if c = NL then [0x5C, 0x6E] else [c])
                (take (le - ls) (drop ls (src_of (ex_unit ex_second)))))) \<and>
      snippet f = Some (str ''OPEN DATASET B.'') \<and>
      NL \<notin> set (the (snippet f))) \<and>
   map snippet (the (findings (scan_unit W0 ex_multi)))
     = [Some (str ''OPEN DATASET'' @ [0x5C, 0x6E] @ str ''F.'')]"
proof -
  have m: "finditer W0 STMT_RE (src_of (ex_unit ex_second)) = [(0, 30), (34, 49)]" by code_simp
  have e: "stmt_findings W0 (ex_unit ex_second) (0, 30) = []" by code_simp
  have "map snippet (stmt_findings W0 (ex_unit ex_second) (34, 49))
      = [Some (str ''OPEN DATASET B.'')]" by code_simp
  then obtain f where f: "stmt_findings W0 (ex_unit ex_second) (34, 49) = [f]"
    "snippet f = Some (str ''OPEN DATASET B.'')"
    by (cases "stmt_findings W0 (ex_unit ex_second) (34, 49)") auto
  have x: "map snippet (the (findings (scan_unit W0 ex_multi)))
     = [Some (str ''OPEN DATASET'' @ [0x5C, 0x6E] @ str ''F.'')]" by code_simp
  from finding_snippet [where W = W0 and u = "ex_unit ex_second"] m f(1)
  obtain ls le where l: "is_line_start (src_of (ex_unit ex_second)) 34 ls"
    "is_line_end (src_of (ex_unit ex_second)) 49 le"
    "snippet f =
        Some (concat (map (\<lambda>c. if c = NL then [0x5C, 0x6E] else [c])
                (take (le - ls) (drop ls (src_of (ex_unit ex_second))))))"
    "NL \<notin> set (the (snippet f))"
    by auto
  from m e f l x show ?thesis by blast
qed

text \<open>
  C6. Every matched statement span starts at a case-insensitive whole-word occurrence of the
  opening phrase (up to case as \<^verbatim>\<open>(?i)\<close> takes it: U+017F stands for S as well), ends with
  a period, and has no period before its last character: it ends
  with the first period after the opening phrase. An occurrence of the opening phrase with
  no period between it and the end of the text starts no match (every match ends at or
  before it), and a text in which no occurrence is followed by a period has no match and
  no finding.
\<close>

theorem statement_span:
  "(\<forall>m\<in>set (finditer W STMT_RE (src_of u)).
      \<exists>j. opening_at W (src_of u) (fst m) j \<and> j < snd m \<and> snd m \<le> length (src_of u) \<and>
          src_of u ! (snd m - 1) = DOT \<and> (\<forall>k\<in>{fst m..<snd m - 1}. src_of u ! k \<noteq> DOT)) \<and>
   (\<forall>i j. opening_at W (src_of u) i j \<and> DOT \<notin> set (drop i (src_of u)) \<longrightarrow>
      (\<forall>m\<in>set (finditer W STMT_RE (src_of u)). snd m \<le> i)) \<and>
   ((\<forall>i j. opening_at W (src_of u) i j \<longrightarrow> DOT \<notin> set (drop i (src_of u))) \<longrightarrow>
      finditer W STMT_RE (src_of u) = [] \<and> findings (scan_unit W u) = Some []) \<and>
   DOT = 0x2E"
proof (intro conjI allI impI ballI)
  fix m assume "m \<in> set (finditer W STMT_RE (src_of u))"
  then show "\<exists>j. opening_at W (src_of u) (fst m) j \<and> j < snd m \<and> snd m \<le> length (src_of u) \<and>
          src_of u ! (snd m - 1) = DOT \<and> (\<forall>k\<in>{fst m..<snd m - 1}. src_of u ! k \<noteq> DOT)"
    by (rule STMT_span)
next
  fix i j m
  assume a: "opening_at W (src_of u) i j \<and> DOT \<notin> set (drop i (src_of u))"
    and m: "m \<in> set (finditer W STMT_RE (src_of u))"
  show "snd m \<le> i"
  proof (rule ccontr)
    assume "\<not> snd m \<le> i"
    with STMT_span [OF m] have "i \<le> snd m - 1" "snd m - 1 < length (src_of u)"
      "src_of u ! (snd m - 1) = DOT" by auto
    then have "DOT \<in> set (drop i (src_of u))"
      using nth_in_drop [of i "snd m - 1" "src_of u"] by simp
    with a show False by simp
  qed
next
  assume a: "\<forall>i j. opening_at W (src_of u) i j \<longrightarrow> DOT \<notin> set (drop i (src_of u))"
  show e: "finditer W STMT_RE (src_of u) = []"
  proof (rule ccontr)
    assume "finditer W STMT_RE (src_of u) \<noteq> []"
    then obtain m where m: "m \<in> set (finditer W STMT_RE (src_of u))"
      by (cases "finditer W STMT_RE (src_of u)") auto
    from STMT_span [OF m] obtain j where j: "opening_at W (src_of u) (fst m) j" "j < snd m"
      "snd m \<le> length (src_of u)" "src_of u ! (snd m - 1) = DOT" by blast
    from j(1) have "fst m < j" by (rule opening_lt)
    with j have "fst m \<le> snd m - 1" "snd m - 1 < length (src_of u)" by simp_all
    with j(4) have "DOT \<in> set (drop (fst m) (src_of u))"
      using nth_in_drop [of "fst m" "snd m - 1" "src_of u"] by simp
    with a j(1) show False by blast
  qed
  then show "findings (scan_unit W u) = Some []" by (rule no_match_no_findings)
next
  show "DOT = 0x2E" by (simp add: DOT_def)
qed

theorem statement_span_witness:
  "(3, 18) \<in> set (finditer W0 STMT_RE (src_of (ex_unit ex_code))) \<and>
   (\<exists>j. opening_at W0 (src_of (ex_unit ex_code)) 3 j \<and> j < 18) \<and>
   18 \<le> length (src_of (ex_unit ex_code)) \<and>
   src_of (ex_unit ex_code) ! 17 = DOT \<and>
   src_of (ex_unit ex_code) ! 10 \<noteq> DOT \<and>
   opening_at W0 (src_of (ex_unit ex_open)) 0 12 \<and>
   DOT \<notin> set (drop 0 (src_of (ex_unit ex_open))) \<and>
   finditer W0 STMT_RE (src_of (ex_unit ex_open)) = [] \<and>
   findings (scan_unit W0 (ex_unit ex_open)) = Some [] \<and>
   (0, 15) \<in> set (finditer W0 STMT_RE (src_of (ex_unit ex_long_s))) \<and>
   (\<exists>j. opening_at W0 (src_of (ex_unit ex_long_s)) 0 j \<and> j < 15)"
proof -
  have ml: "(0, 15) \<in> set (finditer W0 STMT_RE (src_of (ex_unit ex_long_s)))" by code_simp
  from statement_span [where W = W0 and u = "ex_unit ex_long_s"] ml
  have "\<exists>j. opening_at W0 (src_of (ex_unit ex_long_s)) (fst (0::nat, 15::nat)) j \<and>
      j < snd (0::nat, 15::nat)" by blast
  then have rl: "\<exists>j. opening_at W0 (src_of (ex_unit ex_long_s)) 0 j \<and> j < 15" by simp
  have m: "(3, 18) \<in> set (finditer W0 STMT_RE (src_of (ex_unit ex_code)))" by code_simp
  have "12 \<in> set (ends W0 OPENING_RE (src_of (ex_unit ex_open)) 0)" by code_simp
  then have o: "opening_at W0 (src_of (ex_unit ex_open)) 0 12" unfolding mem_ends_OPENING .
  have d: "DOT \<notin> set (src_of (ex_unit ex_open))" by code_simp
  then have d0: "DOT \<notin> set (drop 0 (src_of (ex_unit ex_open)))" by simp
  from d have dd: "\<forall>i j. opening_at W0 (src_of (ex_unit ex_open)) i j \<longrightarrow>
      DOT \<notin> set (drop i (src_of (ex_unit ex_open)))"
    by (meson in_set_dropD)
  from statement_span [where W = W0 and u = "ex_unit ex_code"] m
  have "\<exists>j. opening_at W0 (src_of (ex_unit ex_code)) (fst (3::nat, 18::nat)) j \<and> j < snd (3::nat, 18::nat) \<and>
      snd (3::nat, 18::nat) \<le> length (src_of (ex_unit ex_code)) \<and>
      src_of (ex_unit ex_code) ! (snd (3::nat, 18::nat) - 1) = DOT \<and>
      (\<forall>k\<in>{fst (3::nat, 18::nat)..<snd (3::nat, 18::nat) - 1}. src_of (ex_unit ex_code) ! k \<noteq> DOT)"
    by blast
  then have r1: "(\<exists>j. opening_at W0 (src_of (ex_unit ex_code)) 3 j \<and> j < 18) \<and>
      18 \<le> length (src_of (ex_unit ex_code)) \<and>
      src_of (ex_unit ex_code) ! 17 = DOT \<and> src_of (ex_unit ex_code) ! 10 \<noteq> DOT"
    by auto
  from statement_span [where W = W0 and u = "ex_unit ex_open"] dd
  have r3: "finditer W0 STMT_RE (src_of (ex_unit ex_open)) = [] \<and>
    findings (scan_unit W0 (ex_unit ex_open)) = Some []" by blast
  from m r1 o d0 r3 ml rl show ?thesis by blast
qed

text \<open>
  C7. \<open>scan_unit\<close> does not change the object it is given, nor any other object that exists
  when it is called: it returns a reference to a new object, whose fields other than
  \<open>findings\<close> equal those of the input and whose \<open>findings\<close> is the computed list.
\<close>

theorem scan_unit_frame:
  assumes "unit < length h" and "scan_unit_heap W h unit = (out, h')"
  shows "out = length h \<and> out \<noteq> unit \<and> length h' = Suc (length h) \<and>
         (\<forall>r<length h. h' ! r = h ! r) \<and> h' ! unit = h ! unit \<and>
         findings (h' ! unit) = findings (h ! unit) \<and>
         pgm_name (h' ! out) = pgm_name (h ! unit) \<and>
         inc_name (h' ! out) = inc_name (h ! unit) \<and>
         type (h' ! out) = type (h ! unit) \<and>
         name (h' ! out) = name (h ! unit) \<and>
         start_line (h' ! out) = start_line (h ! unit) \<and>
         end_line (h' ! out) = end_line (h ! unit) \<and>
         code (h' ! out) = code (h ! unit) \<and>
         findings (h' ! out) = Some (scan_findings W (h ! unit)) \<and>
         h' ! out = scan_unit W (h ! unit)"
proof -
  from assms(2) have o: "out = length h" and h': "h' = h @ [scan_unit W (h ! unit)]"
    by (simp_all add: scan_unit_heap_eq)
  from assms(1) show ?thesis unfolding o h'
    by (simp add: nth_append scan_unit_def)
qed

theorem scan_unit_frame_witness:
  "0 < length [ex_unit ex_code] \<and>
   scan_unit_heap W0 [ex_unit ex_code] 0 = (1, [ex_unit ex_code, scan_unit W0 (ex_unit ex_code)]) \<and>
   [ex_unit ex_code, scan_unit W0 (ex_unit ex_code)] ! 0 = [ex_unit ex_code] ! 0 \<and>
   findings ([ex_unit ex_code, scan_unit W0 (ex_unit ex_code)] ! 0) = None \<and>
   code ([ex_unit ex_code, scan_unit W0 (ex_unit ex_code)] ! 1) = code (ex_unit ex_code) \<and>
   findings ([ex_unit ex_code, scan_unit W0 (ex_unit ex_code)] ! 1)
     = Some (scan_findings W0 (ex_unit ex_code))"
proof -
  have l: "0 < length [ex_unit ex_code]" by simp
  have e: "scan_unit_heap W0 [ex_unit ex_code] 0 = (1, [ex_unit ex_code, scan_unit W0 (ex_unit ex_code)])"
    by (simp add: scan_unit_heap_eq)
  have n: "findings (ex_unit ex_code) = None" by (simp add: ex_unit_def)
  from scan_unit_frame [OF l e] l e n show ?thesis by simp
qed

text \<open>
  C8. Scanning is a function of the unit's code and metadata alone. Scanning the scanned
  unit gives the same findings, and the same unit, again. On objects: two calls on inputs
  with equal field values return objects with equal field values, whatever else the two
  heaps hold; a second call on the same input and a call on the first output return again
  the object the first call returned, and the input is as it was.
\<close>

theorem scan_unit_pure:
  "findings (scan_unit W (scan_unit W u)) = findings (scan_unit W u) \<and>
   scan_unit W (scan_unit W u) = scan_unit W u \<and>
   (\<forall>h1 h2 r1 r2. r1 < length h1 \<and> r2 < length h2 \<and> h1 ! r1 = h2 ! r2 \<longrightarrow>
      snd (scan_unit_heap W h1 r1) ! fst (scan_unit_heap W h1 r1) =
      snd (scan_unit_heap W h2 r2) ! fst (scan_unit_heap W h2 r2)) \<and>
   (\<forall>h r. r < length h \<longrightarrow>
      (let (o1, h1) = scan_unit_heap W h r;
           (o2, h2) = scan_unit_heap W h1 r;
           (o3, h3) = scan_unit_heap W h2 o1
       in h3 ! o2 = h3 ! o1 \<and> h3 ! o3 = h3 ! o1 \<and> h3 ! o1 = scan_unit W (h ! r) \<and> h3 ! r = h ! r))"
  by (simp add: scan_unit_idem scan_unit_heap_eq nth_append)

theorem scan_unit_pure_witness:
  "0 < length [ex_unit ex_code] \<and> 1 < length [ex_unit ex_two, ex_unit ex_code] \<and>
   [ex_unit ex_code] ! 0 = [ex_unit ex_two, ex_unit ex_code] ! 1 \<and>
   snd (scan_unit_heap W0 [ex_unit ex_code] 0) ! fst (scan_unit_heap W0 [ex_unit ex_code] 0) =
   snd (scan_unit_heap W0 [ex_unit ex_two, ex_unit ex_code] 1) !
     fst (scan_unit_heap W0 [ex_unit ex_two, ex_unit ex_code] 1) \<and>
   findings (scan_unit W0 (scan_unit W0 (ex_unit ex_code))) = findings (scan_unit W0 (ex_unit ex_code)) \<and>
   map issues_type (the (findings (scan_unit W0 (ex_unit ex_code)))) = [Some (str ''OpenDatasetNoMode'')]"
proof -
  have a: "0 < length [ex_unit ex_code] \<and> 1 < length [ex_unit ex_two, ex_unit ex_code] \<and>
    [ex_unit ex_code] ! 0 = [ex_unit ex_two, ex_unit ex_code] ! 1" by simp
  have b: "map issues_type (the (findings (scan_unit W0 (ex_unit ex_code)))) = [Some (str ''OpenDatasetNoMode'')]"
    by code_simp
  from scan_unit_pure [where W = W0 and u = "ex_unit ex_code"] a b show ?thesis by blast
qed

text \<open>
  C9. The batch operation scans the units in order and returns the scanned units that have
  at least one finding; the single-unit operation returns the scanned unit in every case.
  Of three units of which only the second has a defect, the batch returns the scanned
  second unit alone.
\<close>

theorem batch_keeps_units_with_findings:
  "scan_rule111_array W units = filter (\<lambda>res. findings res \<noteq> Some []) (map (scan_unit W) units) \<and>
   scan_rule111_single W u = scan_unit W u \<and>
   scan_rule111_array W [ex_unit ex_binary, ex_unit ex_text, ex_unit ex_utf8]
     = [scan_unit W (ex_unit ex_text)] \<and>
   map issues_type (the (findings (scan_unit W (ex_unit ex_text))))
     = [Some (str ''OpenDatasetTextNoEncoding'')]"
proof -
  have g: "scan_rule111_array W us = filter (\<lambda>res. findings res \<noteq> Some []) (map (scan_unit W) us)" for us
    by (simp add: scan_rule111_array_def fold_batch)
  have a: "scan_findings W (ex_unit ex_binary) = []" by code_simp
  have b: "map issues_type (scan_findings W (ex_unit ex_text)) = [Some (str ''OpenDatasetTextNoEncoding'')]"
    by code_simp
  have c: "scan_findings W (ex_unit ex_utf8) = []" by code_simp
  from b have b': "scan_findings W (ex_unit ex_text) \<noteq> []" by auto
  from a b b' c show ?thesis
    by (simp add: g scan_rule111_single_def findings_scan_unit)
qed

theorem batch_keeps_units_with_findings_witness:
  "scan_rule111_array W0 [ex_unit ex_code, ex_unit []] = [scan_unit W0 (ex_unit ex_code)] \<and>
   findings (scan_unit W0 (ex_unit [])) = Some [] \<and>
   scan_rule111_single W0 (ex_unit []) = scan_unit W0 (ex_unit [])"
proof -
  have a: "map issues_type (scan_findings W0 (ex_unit ex_code)) = [Some (str ''OpenDatasetNoMode'')]"
    by code_simp
  then have a': "scan_findings W0 (ex_unit ex_code) \<noteq> []" by auto
  have b: "scan_findings W0 (ex_unit []) = []" by code_simp
  from batch_keeps_units_with_findings [where W = W0 and units = "[ex_unit ex_code, ex_unit []]"
      and u = "ex_unit []"] a' b
  show ?thesis by (simp add: findings_scan_unit)
qed

text \<open>
  C10. The result of \<open>scan_unit\<close> does not depend on the \<open>findings\<close> field of its input, and
  its own \<open>findings\<close> field is always a list. Each matched statement contributes at most
  one finding; the list is the concatenation of the contributions of the matches in the
  order of \<^verbatim>\<open>finditer\<close>, in which every match lies to the right of the one before, so the
  findings appear in the order of the start offsets of their statements.
\<close>

theorem scan_unit_findings_order:
  "scan_unit W (u\<lparr>findings := fs\<rparr>) = scan_unit W u \<and>
   findings (scan_unit W u) \<noteq> None \<and>
   findings (scan_unit W u) = Some (concat (map (stmt_findings W u) (finditer W STMT_RE (src_of u)))) \<and>
   (\<forall>m\<in>set (finditer W STMT_RE (src_of u)). length (stmt_findings W u m) \<le> 1) \<and>
   sorted_wrt (\<lambda>m m'. fst m < snd m \<and> snd m \<le> fst m') (finditer W STMT_RE (src_of u)) \<and>
   sorted_wrt (\<lambda>m m'. fst m < fst m') (finditer W STMT_RE (src_of u))"
proof -
  have "sorted_wrt (\<lambda>m m'. fst m < fst m') (finditer W STMT_RE (src_of u))"
    using sorted_wrt_mono_rel [OF _ STMT_matches_increasing [where W = W and s = "src_of u"],
        where Q = "\<lambda>m m'. fst m < fst m'"]
    by auto
  then show ?thesis
    using scan_unit_indep [where W = W and u = u and fs = fs] stmt_findings_le1 [where W = W and u = u]
      STMT_matches_increasing [where W = W and s = "src_of u"]
    by (simp add: findings_scan_unit scan_findings_concat)
qed

theorem scan_unit_findings_order_witness:
  "finditer W0 STMT_RE (src_of (ex_unit ex_two)) = [(0, 15), (16, 44)] \<and>
   scan_unit W0 ((ex_unit ex_two)\<lparr>findings := Some []\<rparr>) = scan_unit W0 (ex_unit ex_two) \<and>
   length (stmt_findings W0 (ex_unit ex_two) (0, 15)) \<le> 1 \<and>
   length (stmt_findings W0 (ex_unit ex_two) (16, 44)) \<le> 1 \<and>
   findings (scan_unit W0 (ex_unit ex_two)) =
     Some (stmt_findings W0 (ex_unit ex_two) (0, 15) @ stmt_findings W0 (ex_unit ex_two) (16, 44)) \<and>
   sorted_wrt (\<lambda>m m'. fst m < fst m') [(0::nat, 15::nat), (16, 44)]"
proof -
  have m: "finditer W0 STMT_RE (src_of (ex_unit ex_two)) = [(0, 15), (16, 44)]" by code_simp
  from scan_unit_findings_order [where W = W0 and u = "ex_unit ex_two" and fs = "Some []"] show ?thesis
    unfolding m by simp
qed

end
